theory Spec2Isabelle
  imports Main
begin

section \<open>Memory model\<close>

text \<open>
  The list is intrusive: the links live inside caller-owned objects, and every operation
  is a handful of pointer writes through possibly aliased pointers. The model is therefore
  an explicit store. An address is a natural number, a pointer is an optional address
  (\<open>None\<close> is \<open>nullptr\<close>), and the heap maps every address to the \<open>list_element\<close>
  stored there. The field \<open>next\<close> of the source is called \<open>nxt\<close>, since \<open>next\<close> is
  a keyword of the proof language.
\<close>

type_synonym addr = nat
type_synonym ptr = "addr option"

record list_element =
  nxt :: ptr
  prev :: ptr

type_synonym heap = "addr \<Rightarrow> list_element"

text \<open>A default-constructed \<open>list_element\<close>: \<open>next = nullptr, prev = nullptr\<close>.\<close>

definition detached :: list_element where
  "detached = \<lparr>nxt = None, prev = None\<rparr>"

text \<open>The assignments \<open>a->next = v\<close> and \<open>a->prev = v\<close>.\<close>

definition set_next :: "heap \<Rightarrow> addr \<Rightarrow> ptr \<Rightarrow> heap" where
  "set_next h a v = h(a := (h a)\<lparr>nxt := v\<rparr>)"

definition set_prev :: "heap \<Rightarrow> addr \<Rightarrow> ptr \<Rightarrow> heap" where
  "set_prev h a v = h(a := (h a)\<lparr>prev := v\<rparr>)"

text \<open>Dereferencing a null pointer is the only way an operation of this library faults.\<close>

datatype fault = NullDeref

section \<open>The link node\<close>

text \<open>
  \<open>list_element::unlink\<close>, called on the object at address \<open>a\<close>. Each statement reads
  the heap left by the statement before it, as the source does.
\<close>

definition unlink :: "heap \<Rightarrow> addr \<Rightarrow> heap" where
  "unlink h a =
    (let h1 = (case nxt (h a) of None \<Rightarrow> h | Some n \<Rightarrow> set_prev h n (prev (h a)));
         h2 = (case prev (h1 a) of None \<Rightarrow> h1 | Some p \<Rightarrow> set_next h1 p (nxt (h1 a)));
         h3 = set_next h2 a None;
         h4 = set_prev h3 a None
     in h4)"

section \<open>The list\<close>

text \<open>
  A \<open>list\<close> object is its sentinel \<open>fake\<close>; in the model a list is the address of
  that sentinel. The constructor value-initialises the sentinel and links it to itself.
\<close>

definition list_ctor :: "heap \<Rightarrow> addr \<Rightarrow> heap" where
  "list_ctor h fake =
    (let h1 = h(fake := detached);
         h2 = set_next h1 fake (Some fake);
         h3 = set_prev h2 fake (Some fake)
     in h3)"

text \<open>\<open>list::empty\<close>, called \<open>empty_list\<close> here.\<close>

definition empty_list :: "heap \<Rightarrow> addr \<Rightarrow> bool" where
  "empty_list h fake \<longleftrightarrow> Some fake = nxt (h fake)"

text \<open>\<open>fake.prev->unlink()\<close> and \<open>fake.next->unlink()\<close>: the call faults on a null pointer.\<close>

definition pop_back :: "heap \<Rightarrow> addr \<Rightarrow> fault + heap" where
  "pop_back h fake =
    (case prev (h fake) of None \<Rightarrow> Inl NullDeref | Some p \<Rightarrow> Inr (unlink h p))"

definition pop_front :: "heap \<Rightarrow> addr \<Rightarrow> fault + heap" where
  "pop_front h fake =
    (case nxt (h fake) of None \<Rightarrow> Inl NullDeref | Some n \<Rightarrow> Inr (unlink h n))"

text \<open>
  \<open>push_back\<close> and \<open>push_front\<close> on the element object at address \<open>cur\<close>. The
  third statement dereferences \<open>fake.prev\<close> (respectively \<open>fake.next\<close>).
\<close>

definition push_back :: "heap \<Rightarrow> addr \<Rightarrow> addr \<Rightarrow> fault + heap" where
  "push_back h fake cur =
    (let h1 = set_next h cur (Some fake);
         h2 = set_prev h1 cur (prev (h1 fake))
     in case prev (h2 fake) of
          None \<Rightarrow> Inl NullDeref
        | Some p \<Rightarrow>
            (let h3 = set_next h2 p (Some cur);
                 h4 = set_prev h3 fake (Some cur)
             in Inr h4))"

definition push_front :: "heap \<Rightarrow> addr \<Rightarrow> addr \<Rightarrow> fault + heap" where
  "push_front h fake cur =
    (let h1 = set_prev h cur (Some fake);
         h2 = set_next h1 cur (nxt (h1 fake))
     in case nxt (h2 fake) of
          None \<Rightarrow> Inl NullDeref
        | Some n \<Rightarrow>
            (let h3 = set_prev h2 n (Some cur);
                 h4 = set_next h3 fake (Some cur)
             in Inr h4))"

text \<open>\<open>back()\<close> and \<open>front()\<close> return the object \<open>fake.prev\<close> / \<open>fake.next\<close> points to.\<close>

definition back_el :: "heap \<Rightarrow> addr \<Rightarrow> fault + addr" where
  "back_el h fake = (case prev (h fake) of None \<Rightarrow> Inl NullDeref | Some p \<Rightarrow> Inr p)"

definition front_el :: "heap \<Rightarrow> addr \<Rightarrow> fault + addr" where
  "front_el h fake = (case nxt (h fake) of None \<Rightarrow> Inl NullDeref | Some n \<Rightarrow> Inr n)"

subsection \<open>Iterators\<close>

text \<open>
  An iterator is its \<open>current\<close> pointer. Equality of iterators is equality of these
  pointers; \<open>++\<close> and \<open>--\<close> read through \<open>current\<close>.
\<close>

type_synonym iterator = ptr

definition begin_it :: "heap \<Rightarrow> addr \<Rightarrow> iterator" where
  "begin_it h fake = nxt (h fake)"

definition end_it :: "addr \<Rightarrow> iterator" where
  "end_it fake = Some fake"

definition incr :: "heap \<Rightarrow> iterator \<Rightarrow> fault + iterator" where
  "incr h it = (case it of None \<Rightarrow> Inl NullDeref | Some c \<Rightarrow> Inr (nxt (h c)))"

definition decr :: "heap \<Rightarrow> iterator \<Rightarrow> fault + iterator" where
  "decr h it = (case it of None \<Rightarrow> Inl NullDeref | Some c \<Rightarrow> Inr (prev (h c)))"

subsection \<open>Structural operations\<close>

text \<open>
  \<open>insert\<close>, \<open>erase\<close> and \<open>splice\<close> never touch \<open>this\<close> (nor \<open>other\<close>): they work
  on the nodes their iterators reference, so the model takes only the heap and the
  iterators. \<open>*pos\<close> dereferences \<open>pos.current\<close>, and \<open>std::prev(last)\<close> reads
  \<open>last.current->prev\<close>. The model calls \<open>insert\<close> \<open>insert_el\<close> and \<open>splice\<close>
  \<open>splice_range\<close>.
\<close>

definition insert_el :: "heap \<Rightarrow> iterator \<Rightarrow> addr \<Rightarrow> fault + heap \<times> iterator" where
  "insert_el h pos new_list_ent =
    (case pos of
       None \<Rightarrow> Inl NullDeref
     | Some list_ent \<Rightarrow>
        (let h1 = set_next h new_list_ent (Some list_ent);
             h2 = set_prev h1 new_list_ent (prev (h1 list_ent))
         in case prev (h2 list_ent) of
              None \<Rightarrow> Inl NullDeref
            | Some p \<Rightarrow>
                (let h3 = set_next h2 p (Some new_list_ent);
                     h4 = set_prev h3 list_ent (Some new_list_ent)
                 in Inr (h4, Some new_list_ent))))"

definition erase :: "heap \<Rightarrow> iterator \<Rightarrow> fault + heap \<times> iterator" where
  "erase h pos =
    (case pos of
       None \<Rightarrow> Inl NullDeref
     | Some list_ent \<Rightarrow>
        (let ret = nxt (h list_ent);
             h1 = unlink h list_ent
         in Inr (h1, ret)))"

definition splice_range :: "heap \<Rightarrow> iterator \<Rightarrow> iterator \<Rightarrow> iterator \<Rightarrow> fault + heap" where
  "splice_range h pos first last_it =
    (if first = last_it then Inr h
     else case pos of None \<Rightarrow> Inl NullDeref | Some to_right \<Rightarrow>
          case prev (h to_right) of None \<Rightarrow> Inl NullDeref | Some to_left \<Rightarrow>
          case last_it of None \<Rightarrow> Inl NullDeref | Some l \<Rightarrow>
          case prev (h l) of None \<Rightarrow> Inl NullDeref | Some from_right \<Rightarrow>
          case first of None \<Rightarrow> Inl NullDeref | Some from_left \<Rightarrow>
            (let h1 = set_next h to_left (Some from_left);
                 h2 = set_prev h1 to_right (Some from_right)
             in case prev (h2 from_left) of None \<Rightarrow> Inl NullDeref | Some flp \<Rightarrow>
                (let h3 = set_next h2 flp (nxt (h2 from_right))
                 in case nxt (h3 from_right) of None \<Rightarrow> Inl NullDeref | Some frn \<Rightarrow>
                    (let h4 = set_prev h3 frn (prev (h3 from_left));
                         h5 = set_prev h4 from_left (Some to_left);
                         h6 = set_next h5 from_right (Some to_right)
                     in Inr h6))))"

text \<open>
  \<open>swap\<close>: the last statement is \<open>std::swap(fake, rhs.fake)\<close>, which exchanges the two
  sentinel records through a temporary.
\<close>

definition swap :: "heap \<Rightarrow> addr \<Rightarrow> addr \<Rightarrow> fault + heap" where
  "swap h fake rhs =
    (case nxt (h fake) of None \<Rightarrow> Inl NullDeref | Some my_next \<Rightarrow>
     case prev (h fake) of None \<Rightarrow> Inl NullDeref | Some my_prev \<Rightarrow>
       (let h1 = set_prev h my_next (Some rhs);
            h2 = set_next h1 my_prev (Some rhs)
        in case nxt (h2 rhs) of None \<Rightarrow> Inl NullDeref | Some rhs_next \<Rightarrow>
           case prev (h2 rhs) of None \<Rightarrow> Inl NullDeref | Some rhs_prev \<Rightarrow>
             (let h3 = set_prev h2 rhs_next (Some fake);
                  h4 = set_next h3 rhs_prev (Some fake);
                  tmp = h4 fake;
                  h5 = h4(fake := h4 rhs);
                  h6 = h5(rhs := tmp)
              in Inr h6)))"

text \<open>
  \<open>clear\<close> is a loop that, on a heap that is not a well-formed list, need not end:
  \<open>None\<close> is the run that never returns, \<open>Some (Inl NullDeref)\<close> the run that calls
  \<open>unlink\<close> through a null \<open>fake.next\<close>.
\<close>

partial_function (option) clear :: "heap \<Rightarrow> addr \<Rightarrow> (fault + heap) option" where
  "clear h fake =
    (if nxt (h fake) \<noteq> Some fake
     then (case nxt (h fake) of
             None \<Rightarrow> Some (Inl NullDeref)
           | Some n \<Rightarrow> clear (unlink h n) fake)
     else Some (Inr h))"

text \<open>
  The move constructor builds the list at the fresh address \<open>fake\<close> with the default
  constructor, swaps with \<open>rhs\<close> and clears \<open>rhs\<close>; move assignment does the same on
  an existing list.
\<close>

definition move_ctor :: "heap \<Rightarrow> addr \<Rightarrow> addr \<Rightarrow> (fault + heap) option" where
  "move_ctor h fake rhs =
    (case swap (list_ctor h fake) fake rhs of
       Inl e \<Rightarrow> Some (Inl e)
     | Inr h1 \<Rightarrow> clear h1 rhs)"

definition move_assign :: "heap \<Rightarrow> addr \<Rightarrow> addr \<Rightarrow> (fault + heap) option" where
  "move_assign h fake rhs =
    (case swap h fake rhs of
       Inl e \<Rightarrow> Some (Inl e)
     | Inr h1 \<Rightarrow> clear h1 rhs)"

declare clear.simps [code]

subsection \<open>Reading a list, and runs of pushes and pops\<close>

text \<open>
  The element sequence read from \<open>begin()\<close> to \<open>end()\<close>: the loop
  \<open>for (it = l.begin(); it != l.end(); ++it) out.push_back(&*it)\<close>. \<open>None\<close> is the
  loop that dereferences a null iterator or never reaches \<open>end()\<close>.
\<close>

partial_function (option) walk :: "heap \<Rightarrow> addr \<Rightarrow> iterator \<Rightarrow> addr list option" where
  "walk h fake it =
    (if it = end_it fake then Some []
     else case it of
            None \<Rightarrow> None
          | Some c \<Rightarrow> Option.bind (walk h fake (nxt (h c))) (\<lambda>r. Some (c # r)))"

declare walk.simps [code]

definition elems :: "heap \<Rightarrow> addr \<Rightarrow> addr list option" where
  "elems h fake = walk h fake (begin_it h fake)"

datatype list_op = PushBack addr | PushFront addr | PopBack | PopFront

fun apply_op :: "heap \<Rightarrow> addr \<Rightarrow> list_op \<Rightarrow> fault + heap" where
  "apply_op h fake (PushBack e) = push_back h fake e"
| "apply_op h fake (PushFront e) = push_front h fake e"
| "apply_op h fake PopBack = pop_back h fake"
| "apply_op h fake PopFront = pop_front h fake"

fun run_ops :: "heap \<Rightarrow> addr \<Rightarrow> list_op list \<Rightarrow> fault + heap" where
  "run_ops h fake [] = Inr h"
| "run_ops h fake (x # r) =
    (case apply_op h fake x of Inl e \<Rightarrow> Inl e | Inr h' \<Rightarrow> run_ops h' fake r)"

text \<open>Run the operations, then read the list from \<open>begin()\<close> to \<open>end()\<close>.\<close>

definition read_after :: "heap \<Rightarrow> addr \<Rightarrow> list_op list \<Rightarrow> fault + addr list option" where
  "read_after h fake ops =
    (case run_ops h fake ops of Inl e \<Rightarrow> Inl e | Inr h' \<Rightarrow> Inr (elems h' fake))"

text \<open>
  The reference container: a double-ended queue of element addresses, as a list.
\<close>

fun deque_op :: "addr list \<Rightarrow> list_op \<Rightarrow> addr list" where
  "deque_op xs (PushBack e) = xs @ [e]"
| "deque_op xs (PushFront e) = e # xs"
| "deque_op xs PopBack = butlast xs"
| "deque_op xs PopFront = tl xs"

fun deque_run :: "addr list \<Rightarrow> list_op list \<Rightarrow> addr list" where
  "deque_run xs [] = xs"
| "deque_run xs (x # r) = deque_run (deque_op xs x) r"

text \<open>
  \<open>pops_nonempty xs ops\<close>: run from the contents \<open>xs\<close>, every pop of \<open>ops\<close> meets a
  non-empty container. \<open>pushes_unlinked fake xs ops\<close>: every push of \<open>ops\<close> is given an
  element that is not in the container at that moment, and is not the sentinel.
\<close>

fun pops_nonempty :: "addr list \<Rightarrow> list_op list \<Rightarrow> bool" where
  "pops_nonempty xs [] \<longleftrightarrow> True"
| "pops_nonempty xs (PopBack # r) \<longleftrightarrow> xs \<noteq> [] \<and> pops_nonempty (deque_op xs PopBack) r"
| "pops_nonempty xs (PopFront # r) \<longleftrightarrow> xs \<noteq> [] \<and> pops_nonempty (deque_op xs PopFront) r"
| "pops_nonempty xs (x # r) \<longleftrightarrow> pops_nonempty (deque_op xs x) r"

fun pushes_unlinked :: "addr \<Rightarrow> addr list \<Rightarrow> list_op list \<Rightarrow> bool" where
  "pushes_unlinked fake xs [] \<longleftrightarrow> True"
| "pushes_unlinked fake xs (PushBack e # r) \<longleftrightarrow>
     e \<notin> set (fake # xs) \<and> pushes_unlinked fake (deque_op xs (PushBack e)) r"
| "pushes_unlinked fake xs (PushFront e # r) \<longleftrightarrow>
     e \<notin> set (fake # xs) \<and> pushes_unlinked fake (deque_op xs (PushFront e)) r"
| "pushes_unlinked fake xs (x # r) \<longleftrightarrow> pushes_unlinked fake (deque_op xs x) r"

section \<open>Well-formed lists\<close>

text \<open>
  \<open>linked h a b\<close>: \<open>b\<close> follows \<open>a\<close>, in both directions. A cycle is a non-empty
  list of distinct addresses, each linked to the one after it and the last one linked
  to the first. A well-formed list with sentinel \<open>fake\<close> and element sequence \<open>xs\<close>
  is the cycle \<open>fake # xs\<close>: following \<open>next\<close> from the sentinel visits \<open>xs\<close> in order
  and returns to the sentinel, following \<open>prev\<close> visits \<open>xs\<close> in reverse.
\<close>

definition linked :: "heap \<Rightarrow> addr \<Rightarrow> addr \<Rightarrow> bool" where
  "linked h a b \<longleftrightarrow> nxt (h a) = Some b \<and> prev (h b) = Some a"

definition cycle :: "heap \<Rightarrow> addr list \<Rightarrow> bool" where
  "cycle h cs \<longleftrightarrow> cs \<noteq> [] \<and> distinct cs \<and> successively (linked h) (cs @ [hd cs])"

definition is_list :: "heap \<Rightarrow> addr \<Rightarrow> addr list \<Rightarrow> bool" where
  "is_list h fake xs \<longleftrightarrow> cycle h (fake # xs)"

section \<open>Programs over several lists\<close>

text \<open>
  The positions of a list are \<open>end()\<close> and the iterators that \<open>++\<close> reaches from
  \<open>begin()\<close> before \<open>end()\<close>. \<open>[first, last)\<close> is a valid range of a list, with the
  nodes \<open>r\<close>, when \<open>r\<close> is a contiguous part of the element sequence, \<open>first\<close> is the
  iterator to its first node and \<open>last\<close> the iterator to the node after it (the range is
  empty when \<open>first = last\<close>).
\<close>

definition position :: "heap \<Rightarrow> addr \<Rightarrow> iterator \<Rightarrow> bool" where
  "position h fake pos \<longleftrightarrow>
    (case elems h fake of None \<Rightarrow> False | Some xs \<Rightarrow> pos \<in> Some ` set (fake # xs))"

definition valid_range :: "heap \<Rightarrow> addr \<Rightarrow> iterator \<Rightarrow> iterator \<Rightarrow> addr list \<Rightarrow> bool" where
  "valid_range h fake first last_it r \<longleftrightarrow>
    (\<exists>as cs. elems h fake = Some (as @ r @ cs)
       \<and> first = Some (hd (r @ cs @ [fake])) \<and> last_it = Some (hd (cs @ [fake])))"

text \<open>
  The precondition of \<open>splice(pos, other, first, last)\<close> on the list \<open>this\<close>: \<open>pos\<close> is
  a position of \<open>this\<close>, \<open>[first, last)\<close> is a valid range of \<open>other\<close>, and \<open>pos\<close> is not
  inside the range. \<open>splice_pre_apart\<close> asks in addition that a non-empty range of the
  list \<open>this\<close> itself does not end at \<open>pos\<close>.
\<close>

definition splice_pre ::
  "heap \<Rightarrow> addr \<Rightarrow> addr \<Rightarrow> iterator \<Rightarrow> iterator \<Rightarrow> iterator \<Rightarrow> bool" where
  "splice_pre h this other pos first last_it \<longleftrightarrow>
    position h this pos \<and> (\<exists>r. valid_range h other first last_it r \<and> pos \<notin> Some ` set r)"

definition splice_pre_apart ::
  "heap \<Rightarrow> addr \<Rightarrow> addr \<Rightarrow> iterator \<Rightarrow> iterator \<Rightarrow> iterator \<Rightarrow> bool" where
  "splice_pre_apart h this other pos first last_it \<longleftrightarrow>
    splice_pre h this other pos first last_it
    \<and> \<not> (this = other \<and> pos = last_it \<and> first \<noteq> last_it)"

text \<open>
  \<open>reach pre h L\<close>: the heap \<open>h\<close> with the live lists \<open>L\<close> (their sentinels) is the
  result of a sequence of operations that starts with no list and only detached nodes,
  each operation called within its precondition and returning normally. Lists are
  constructed in storage that holds no linked node; an element handed to \<open>push_back\<close>,
  \<open>push_front\<close> or \<open>insert\<close> is detached; a pop meets a non-empty list; \<open>insert\<close> and
  \<open>erase\<close> get a position of the list, \<open>erase\<close> not \<open>end()\<close>; \<open>splice\<close> is called
  within \<open>pre\<close>.
\<close>

inductive reach ::
  "(heap \<Rightarrow> addr \<Rightarrow> addr \<Rightarrow> iterator \<Rightarrow> iterator \<Rightarrow> iterator \<Rightarrow> bool)
    \<Rightarrow> heap \<Rightarrow> addr set \<Rightarrow> bool"
  for pre where
  start: "reach pre (\<lambda>_. detached) {}"
| ctor: "reach pre h L \<Longrightarrow> f \<notin> L \<Longrightarrow> h f = detached
    \<Longrightarrow> reach pre (list_ctor h f) (insert f L)"
| push_back: "reach pre h L \<Longrightarrow> f \<in> L \<Longrightarrow> h e = detached \<Longrightarrow> push_back h f e = Inr h'
    \<Longrightarrow> reach pre h' L"
| push_front: "reach pre h L \<Longrightarrow> f \<in> L \<Longrightarrow> h e = detached \<Longrightarrow> push_front h f e = Inr h'
    \<Longrightarrow> reach pre h' L"
| pop_back: "reach pre h L \<Longrightarrow> f \<in> L \<Longrightarrow> \<not> empty_list h f \<Longrightarrow> pop_back h f = Inr h'
    \<Longrightarrow> reach pre h' L"
| pop_front: "reach pre h L \<Longrightarrow> f \<in> L \<Longrightarrow> \<not> empty_list h f \<Longrightarrow> pop_front h f = Inr h'
    \<Longrightarrow> reach pre h' L"
| insert: "reach pre h L \<Longrightarrow> f \<in> L \<Longrightarrow> position h f pos \<Longrightarrow> h e = detached
    \<Longrightarrow> insert_el h pos e = Inr (h', it) \<Longrightarrow> reach pre h' L"
| erase: "reach pre h L \<Longrightarrow> f \<in> L \<Longrightarrow> position h f pos \<Longrightarrow> pos \<noteq> end_it f
    \<Longrightarrow> erase h pos = Inr (h', it) \<Longrightarrow> reach pre h' L"
| splice: "reach pre h L \<Longrightarrow> f \<in> L \<Longrightarrow> g \<in> L \<Longrightarrow> pre h f g pos first last_it
    \<Longrightarrow> splice_range h pos first last_it = Inr h' \<Longrightarrow> reach pre h' L"
| swap: "reach pre h L \<Longrightarrow> f \<in> L \<Longrightarrow> g \<in> L \<Longrightarrow> swap h f g = Inr h'
    \<Longrightarrow> reach pre h' L"
| clear: "reach pre h L \<Longrightarrow> f \<in> L \<Longrightarrow> clear h f = Some (Inr h')
    \<Longrightarrow> reach pre h' L"
| move_ctor: "reach pre h L \<Longrightarrow> g \<in> L \<Longrightarrow> f \<notin> L \<Longrightarrow> h f = detached
    \<Longrightarrow> move_ctor h f g = Some (Inr h') \<Longrightarrow> reach pre h' (insert f L)"
| move_assign: "reach pre h L \<Longrightarrow> f \<in> L \<Longrightarrow> g \<in> L \<Longrightarrow> move_assign h f g = Some (Inr h')
    \<Longrightarrow> reach pre h' L"

text \<open>
  The invariant of the data model. \<open>mutual_links\<close>: every node is detached, or has both
  links set with \<open>n.next.prev = n\<close> and \<open>n.prev.next = n\<close>. \<open>list_inv\<close>: the chain from
  the sentinel through \<open>next\<close> returns to the sentinel, through \<open>prev\<close> it does so in
  reverse, and the sentinel is linked to itself exactly when the list has no element.
\<close>

definition mutual_links :: "heap \<Rightarrow> bool" where
  "mutual_links h \<longleftrightarrow>
    (\<forall>n. h n = detached
       \<or> (\<exists>m p. nxt (h n) = Some m \<and> prev (h m) = Some n
                \<and> prev (h n) = Some p \<and> nxt (h p) = Some n))"

definition list_inv :: "heap \<Rightarrow> addr \<Rightarrow> bool" where
  "list_inv h fake \<longleftrightarrow>
    (\<exists>xs. is_list h fake xs
       \<and> ((nxt (h fake) = Some fake \<and> prev (h fake) = Some fake) \<longleftrightarrow> xs = [])
       \<and> (empty_list h fake \<longleftrightarrow> xs = []))"

definition invariant :: "heap \<Rightarrow> addr set \<Rightarrow> bool" where
  "invariant h L \<longleftrightarrow> mutual_links h \<and> (\<forall>f \<in> L. list_inv h f)"

text \<open>
  The invariant that the proofs carry: a ghost map \<open>C\<close> gives every live list its
  element sequence; every live list is well-formed with that sequence, two different
  live lists share no node, and every node that is on no live list is detached.
\<close>

definition owned :: "(addr \<Rightarrow> addr list) \<Rightarrow> addr set \<Rightarrow> addr set" where
  "owned C L = (\<Union>f \<in> L. set (f # C f))"

definition good :: "heap \<Rightarrow> addr set \<Rightarrow> (addr \<Rightarrow> addr list) \<Rightarrow> bool" where
  "good h L C \<longleftrightarrow>
    (\<forall>f \<in> L. is_list h f (C f))
    \<and> (\<forall>f \<in> L. \<forall>g \<in> L. f \<noteq> g \<longrightarrow> set (f # C f) \<inter> set (g # C g) = {})
    \<and> (\<forall>c. c \<notin> owned C L \<longrightarrow> h c = detached)"

section \<open>Example heaps\<close>

text \<open>
  \<open>heap0\<close> holds only detached nodes; \<open>ring3\<close> holds the list with sentinel \<open>0\<close> and
  elements \<open>1, 2\<close>.
\<close>

definition heap0 :: heap where
  "heap0 = (\<lambda>_. detached)"

definition ring3 :: heap where
  "ring3 = heap0
     (0 := \<lparr>nxt = Some 1, prev = Some 2\<rparr>,
      1 := \<lparr>nxt = Some 2, prev = Some 0\<rparr>,
      2 := \<lparr>nxt = Some 0, prev = Some 1\<rparr>)"

text \<open>\<open>two_lists\<close> adds to \<open>ring3\<close> a second list, with sentinel \<open>5\<close> and the element \<open>6\<close>.\<close>

definition two_lists :: heap where
  "two_lists = ring3
     (5 := \<lparr>nxt = Some 6, prev = Some 6\<rparr>,
      6 := \<lparr>nxt = Some 5, prev = Some 5\<rparr>)"

section \<open>Facts about cycles\<close>

lemma last_notin_butlast: "distinct r \<Longrightarrow> r \<noteq> [] \<Longrightarrow> last r \<notin> set (butlast r)"
  by (cases r rule: rev_cases) auto

lemma hd_notin_tl: "distinct r \<Longrightarrow> r \<noteq> [] \<Longrightarrow> hd r \<notin> set (tl r)"
  by (cases r) auto

lemma cycle_rotate: "cycle h (xs @ ys) \<Longrightarrow> cycle h (ys @ xs)"
  by (cases xs; cases ys)
    (auto simp: cycle_def successively_append_iff successively_Cons hd_append)

text \<open>
  A path survives a heap change that leaves \<open>next\<close> alone on all its nodes but the last
  and \<open>prev\<close> alone on all its nodes but the first.
\<close>

lemma successively_frame:
  assumes "successively (linked h) zs"
    and "\<And>c. c \<in> set (butlast zs) \<Longrightarrow> nxt (h' c) = nxt (h c)"
    and "\<And>c. c \<in> set (tl zs) \<Longrightarrow> prev (h' c) = prev (h c)"
  shows "successively (linked h') zs"
  using assms
proof (induction "linked h" zs rule: successively.induct)
  case (3 x y xs)
  then show ?case by (auto simp: linked_def)
qed simp_all

lemma cycle_next: "cycle h (p # r) \<Longrightarrow> nxt (h p) = Some (hd (r @ [p]))"
  by (cases r) (auto simp: cycle_def linked_def)

lemma cycle_prev: "cycle h (p # r) \<Longrightarrow> prev (h p) = Some (last (p # r))"
  by (cases r rule: rev_cases)
    (auto simp: cycle_def linked_def successively_append_iff successively_Cons)

lemma cycle_parts:
  assumes "cycle h (p # r)" "r \<noteq> []"
  shows "distinct (p # r)" "successively (linked h) r" "linked h (last r) p" "linked h p (hd r)"
  using assms by (auto simp: cycle_def successively_append_iff successively_Cons)

lemma cycle_nonempty: "cycle h cs \<Longrightarrow> cs \<noteq> []"
  by (simp add: cycle_def)

lemma cycle_distinct: "cycle h cs \<Longrightarrow> distinct cs"
  by (simp add: cycle_def)

lemma cycle_path: "cycle h cs \<Longrightarrow> successively (linked h) cs"
  unfolding cycle_def successively_append_iff by auto

lemma cycle_close: "cycle h cs \<Longrightarrow> linked h (last cs) (hd cs)"
  unfolding cycle_def successively_append_iff by auto

lemma cycleI:
  "cs \<noteq> [] \<Longrightarrow> distinct cs \<Longrightarrow> successively (linked h) cs \<Longrightarrow> linked h (last cs) (hd cs)
    \<Longrightarrow> cycle h cs"
  unfolding cycle_def successively_append_iff by auto

lemma cycle_hd_prev: "cycle h cs \<Longrightarrow> prev (h (hd cs)) = Some (last cs)"
  using cycle_close by (simp add: linked_def)

lemma cycle_last_next: "cycle h cs \<Longrightarrow> nxt (h (last cs)) = Some (hd cs)"
  using cycle_close by (simp add: linked_def)

text \<open>Every node of a cycle is linked, so a detached node is on no cycle.\<close>

lemma cycle_linked_nodes:
  assumes "cycle h cs" "c \<in> set cs"
  shows "nxt (h c) \<noteq> None" "prev (h c) \<noteq> None"
proof -
  from assms(2) obtain as bs where "cs = as @ c # bs" by (auto simp: in_set_conv_decomp)
  with assms(1) have "cycle h (c # bs @ as)" using cycle_rotate[of h as "c # bs"] by simp
  then show "nxt (h c) \<noteq> None" "prev (h c) \<noteq> None"
    using cycle_next cycle_prev by fastforce+
qed

lemma detached_notin_cycle: "cycle h cs \<Longrightarrow> h e = detached \<Longrightarrow> e \<notin> set cs"
  using cycle_linked_nodes(1) by (fastforce simp: detached_def)

text \<open>The list \<open>xs @ ys\<close> of sentinel \<open>f\<close>, read as a cycle that starts at \<open>ys\<close>.\<close>

lemma is_list_rotate: "is_list h f (xs @ ys) \<longleftrightarrow> cycle h (ys @ f # xs)"
  unfolding is_list_def using cycle_rotate[of h "f # xs" ys] cycle_rotate[of h ys "f # xs"]
  by auto

section \<open>unlink\<close>

lemma unlink_fields:
  "unlink h a a = detached"
  "b \<noteq> a \<Longrightarrow> nxt (unlink h a b) = (if Some b = prev (h a) then nxt (h a) else nxt (h b))"
  "b \<noteq> a \<Longrightarrow> prev (unlink h a b) = (if Some b = nxt (h a) then prev (h a) else prev (h b))"
  by (auto simp: unlink_def set_next_def set_prev_def Let_def detached_def split: option.splits)

lemma unlink_other:
  "b \<noteq> a \<Longrightarrow> Some b \<noteq> nxt (h a) \<Longrightarrow> Some b \<noteq> prev (h a) \<Longrightarrow> unlink h a b = h b"
  by (auto simp: unlink_def set_next_def set_prev_def Let_def split: option.splits)

lemma unlink_detached: "h a = detached \<Longrightarrow> unlink h a = h"
  by (auto simp: unlink_def set_next_def set_prev_def Let_def detached_def split: option.splits)

lemma unlink_cycle:
  assumes "cycle h (p # r)" "r \<noteq> []"
  shows "cycle (unlink h p) r"
proof -
  note parts = cycle_parts[OF assms]
  have np: "nxt (h p) = Some (hd r)" "prev (h p) = Some (last r)"
    using parts by (simp_all add: linked_def)
  have pr: "p \<notin> set r" "distinct r" using parts(1) by simp_all
  have "successively (linked (unlink h p)) r"
  proof (rule successively_frame[OF parts(2)])
    fix c assume "c \<in> set (butlast r)"
    then have "c \<noteq> p" "c \<noteq> last r" using pr assms(2)
      by (auto dest: in_set_butlastD last_notin_butlast)
    then show "nxt (unlink h p c) = nxt (h c)" by (simp add: unlink_fields np)
  next
    fix c assume "c \<in> set (tl r)"
    then have "c \<noteq> p" "c \<noteq> hd r" using pr assms(2)
      by (auto dest: list.set_sel(2) hd_notin_tl)
    then show "prev (unlink h p c) = prev (h c)" by (simp add: unlink_fields np)
  qed
  moreover have "last r \<noteq> p" "hd r \<noteq> p"
    using pr assms(2) by (metis last_in_set, metis hd_in_set)
  then have "linked (unlink h p) (last r) (hd r)"
    by (simp add: linked_def unlink_fields np)
  ultimately show ?thesis using assms(2) pr
    by (simp add: cycle_def successively_append_iff)
qed

text \<open>
  Claim C7. \<open>unlink\<close> on a linked node \<open>a\<close> with \<open>next = n\<close> and \<open>prev = p\<close> leaves
  \<open>a\<close> detached, \<open>p.next = n\<close> and \<open>n.prev = p\<close> (where \<open>p\<close>, \<open>n\<close> are not \<open>a\<close> itself,
  whose links are reset afterwards), changes no other link of any node, and changes no
  node other than \<open>a\<close>, \<open>n\<close> and \<open>p\<close>. On a detached node it changes nothing, and on
  every node a second \<open>unlink\<close> right after the first changes nothing.
\<close>

theorem unlink_bridges_and_detaches:
  "(nxt (h a) = Some n \<and> prev (h a) = Some p \<longrightarrow>
      unlink h a a = detached
    \<and> (p \<noteq> a \<longrightarrow> nxt (unlink h a p) = Some n)
    \<and> (n \<noteq> a \<longrightarrow> prev (unlink h a n) = Some p)
    \<and> (\<forall>b. b \<noteq> a \<and> b \<noteq> p \<longrightarrow> nxt (unlink h a b) = nxt (h b))
    \<and> (\<forall>b. b \<noteq> a \<and> b \<noteq> n \<longrightarrow> prev (unlink h a b) = prev (h b))
    \<and> (\<forall>b. b \<notin> {a, n, p} \<longrightarrow> unlink h a b = h b))
  \<and> (h a = detached \<longrightarrow> unlink h a = h)
  \<and> unlink (unlink h a) a = unlink h a"
proof -
  have "unlink (unlink h a) a = unlink h a"
    by (rule unlink_detached) (rule unlink_fields(1))
  moreover have "\<forall>b. b \<notin> {a, n, p} \<longrightarrow> unlink h a b = h b"
    if "nxt (h a) = Some n" "prev (h a) = Some p"
    using that by (auto intro: unlink_other)
  ultimately show ?thesis
    by (auto simp: unlink_fields unlink_detached)
qed

theorem unlink_bridges_and_detaches_witness:
  "unlink ring3 1 1 = detached
   \<and> nxt (unlink ring3 1 0) = Some 2
   \<and> prev (unlink ring3 1 2) = Some 0
   \<and> prev (unlink ring3 1 0) = prev (ring3 0)
   \<and> nxt (unlink ring3 1 2) = nxt (ring3 2)
   \<and> unlink ring3 1 7 = ring3 7
   \<and> unlink heap0 1 = heap0
   \<and> unlink (unlink ring3 1) 1 = unlink ring3 1"
  using unlink_bridges_and_detaches [of ring3 1 2 0]
    unlink_bridges_and_detaches [of heap0 1]
  by (simp add: ring3_def heap0_def)

text \<open>
  Claim C10. On an empty list (the sentinel linked to itself) \<open>pop_back\<close> and
  \<open>pop_front\<close> do not fault: both run \<open>unlink\<close> on the sentinel, which leaves the
  sentinel's \<open>next\<close> and \<open>prev\<close> null. Afterwards \<open>empty\<close> is false although no
  element was ever inserted, and the sentinel heads no well-formed list any more.
\<close>

theorem pop_on_empty_list_detaches_sentinel:
  "is_list h fake [] \<longrightarrow>
     pop_back h fake = Inr (unlink h fake)
   \<and> pop_front h fake = Inr (unlink h fake)
   \<and> nxt (unlink h fake fake) = None
   \<and> prev (unlink h fake fake) = None
   \<and> \<not> empty_list (unlink h fake) fake
   \<and> (\<forall>xs. \<not> is_list (unlink h fake) fake xs)"
proof
  assume e: "is_list h fake []"
  then have l: "nxt (h fake) = Some fake" "prev (h fake) = Some fake"
    by (simp_all add: is_list_def cycle_def linked_def)
  have d: "unlink h fake fake = detached" by (rule unlink_fields(1))
  have "\<not> is_list (unlink h fake) fake xs" for xs
    using cycle_next [of "unlink h fake" fake xs] by (auto simp: is_list_def d detached_def)
  then show "pop_back h fake = Inr (unlink h fake)
   \<and> pop_front h fake = Inr (unlink h fake)
   \<and> nxt (unlink h fake fake) = None
   \<and> prev (unlink h fake fake) = None
   \<and> \<not> empty_list (unlink h fake) fake
   \<and> (\<forall>xs. \<not> is_list (unlink h fake) fake xs)"
    by (simp add: pop_back_def pop_front_def l d detached_def empty_list_def)
qed

theorem pop_on_empty_list_detaches_sentinel_witness:
  "is_list (list_ctor heap0 5) 5 []
   \<and> pop_back (list_ctor heap0 5) 5 = Inr (unlink (list_ctor heap0 5) 5)
   \<and> pop_front (list_ctor heap0 5) 5 = Inr (unlink (list_ctor heap0 5) 5)
   \<and> nxt (unlink (list_ctor heap0 5) 5 5) = None
   \<and> prev (unlink (list_ctor heap0 5) 5 5) = None
   \<and> \<not> empty_list (unlink (list_ctor heap0 5) 5) 5"
proof -
  have e: "is_list (list_ctor heap0 5) 5 []"
    by (simp add: is_list_def cycle_def linked_def list_ctor_def set_next_def set_prev_def)
  show ?thesis
    using e pop_on_empty_list_detaches_sentinel [of "list_ctor heap0 5" 5] by blast
qed

section \<open>insert\<close>

lemma insert_el_result:
  assumes "prev (h pos) = Some q" "e \<noteq> pos" "e \<noteq> q"
  shows "\<exists>h'. insert_el h (Some pos) e = Inr (h', Some e)
    \<and> (\<forall>c. nxt (h' c) = (if c = e then Some pos else if c = q then Some e else nxt (h c)))
    \<and> (\<forall>c. prev (h' c) = (if c = pos then Some e else if c = e then Some q else prev (h c)))
    \<and> (\<forall>c. c \<notin> {e, pos, q} \<longrightarrow> h' c = h c)"
  using assms
  by (auto simp: insert_el_def set_next_def set_prev_def Let_def)

lemma insert_cycle:
  assumes "cycle h cs" "e \<notin> set cs"
  shows "\<exists>h'. insert_el h (Some (hd cs)) e = Inr (h', Some e)
    \<and> cycle h' (cs @ [e])
    \<and> (\<forall>c. nxt (h' c) = (if c = e then Some (hd cs) else if c = last cs then Some e else nxt (h c)))
    \<and> (\<forall>c. prev (h' c) = (if c = hd cs then Some e else if c = e then Some (last cs) else prev (h c)))
    \<and> (\<forall>c. c \<notin> {e, hd cs, last cs} \<longrightarrow> h' c = h c)"
proof -
  let ?q = "last cs" and ?pos = "hd cs"
  note ne = cycle_nonempty[OF assms(1)]
  have q: "prev (h ?pos) = Some ?q" using assms(1) by (rule cycle_hd_prev)
  have ne': "e \<noteq> ?pos" "e \<noteq> ?q" using assms(2) ne by (metis hd_in_set, metis last_in_set)
  from insert_el_result[of h ?pos ?q e] q ne' obtain h' where h':
    "insert_el h (Some ?pos) e = Inr (h', Some e)"
    "\<And>c. nxt (h' c) = (if c = e then Some ?pos else if c = ?q then Some e else nxt (h c))"
    "\<And>c. prev (h' c) = (if c = ?pos then Some e else if c = e then Some ?q else prev (h c))"
    "\<And>c. c \<notin> {e, ?pos, ?q} \<Longrightarrow> h' c = h c"
    by blast
  have d: "distinct cs" and s: "successively (linked h) cs"
    using assms(1) by (rule cycle_distinct, rule cycle_path)
  have "successively (linked h') cs"
  proof (rule successively_frame[OF s])
    fix c assume "c \<in> set (butlast cs)"
    then have "c \<noteq> e" "c \<noteq> ?q" using assms(2) last_notin_butlast[OF d ne]
      by (auto dest: in_set_butlastD)
    then show "nxt (h' c) = nxt (h c)" by (simp add: h'(2))
  next
    fix c assume "c \<in> set (tl cs)"
    then have "c \<noteq> e" "c \<noteq> ?pos" using assms(2) hd_notin_tl[OF d ne]
      by (auto dest: list.set_sel(2)[OF ne])
    then show "prev (h' c) = prev (h c)" by (simp add: h'(3))
  qed
  moreover have "linked h' ?q e" "linked h' e ?pos"
    using ne' by (simp_all add: linked_def h'(2,3))
  ultimately have "cycle h' (cs @ [e])"
    using d assms(2) ne by (intro cycleI) (simp_all add: successively_append_iff)
  with h' show ?thesis by blast
qed

lemma insert_is_list:
  assumes "is_list h f (xs @ ys)" "e \<notin> set (f # xs @ ys)"
  shows "\<exists>h'. insert_el h (Some (hd (ys @ [f]))) e = Inr (h', Some e)
    \<and> is_list h' f (xs @ e # ys)
    \<and> (\<forall>c. nxt (h' c) = (if c = e then Some (hd (ys @ [f])) else if c = last (f # xs) then Some e else nxt (h c)))
    \<and> (\<forall>c. prev (h' c) = (if c = hd (ys @ [f]) then Some e else if c = e then Some (last (f # xs)) else prev (h c)))
    \<and> (\<forall>c. c \<notin> {e, hd (ys @ [f]), last (f # xs)} \<longrightarrow> h' c = h c)"
proof -
  have c: "cycle h (ys @ f # xs)" using assms(1) by (simp add: is_list_rotate)
  have hl: "hd (ys @ f # xs) = hd (ys @ [f])" "last (ys @ f # xs) = last (f # xs)"
    by (simp_all add: hd_append)
  have "is_list h' f (xs @ e # ys)" if "cycle h' ((ys @ f # xs) @ [e])" for h'
    using that is_list_rotate[of h' f "xs @ [e]" ys] by simp
  then show ?thesis
    using insert_cycle[OF c, of e] assms(2) unfolding hl by auto
qed

lemma ring3_is_list: "is_list ring3 0 [1, 2]"
  by (simp add: is_list_def cycle_def linked_def ring3_def)

text \<open>
  Claim C8. In a well-formed list \<open>xs @ ys\<close> a position is the first node of \<open>ys\<close>, or
  the sentinel (\<open>end()\<close>) when \<open>ys\<close> is empty. For a detached element \<open>e\<close>,
  \<open>insert\<close> at that position returns an iterator to \<open>e\<close> and leaves the list
  \<open>xs @ e # ys\<close>: \<open>e\<close> is linked between the node that was before the position and the
  position, and no other node changes. On every heap, \<open>insert(end(), e)\<close> leaves exactly
  the heap \<open>push_back(e)\<close> leaves (and faults when it does).
\<close>

theorem insert_links_before_pos:
  "(is_list h fake (xs @ ys) \<and> h e = detached \<longrightarrow>
     (\<exists>h'. insert_el h (Some (hd (ys @ [fake]))) e = Inr (h', Some e)
        \<and> is_list h' fake (xs @ e # ys)
        \<and> linked h' e (hd (ys @ [fake]))
        \<and> linked h' (last (fake # xs)) e
        \<and> (\<forall>c. c \<notin> {e, hd (ys @ [fake]), last (fake # xs)} \<longrightarrow> h' c = h c)))
   \<and> map_sum id fst (insert_el h (end_it fake) e) = push_back h fake e"
proof
  show "is_list h fake (xs @ ys) \<and> h e = detached \<longrightarrow>
     (\<exists>h'. insert_el h (Some (hd (ys @ [fake]))) e = Inr (h', Some e)
        \<and> is_list h' fake (xs @ e # ys)
        \<and> linked h' e (hd (ys @ [fake]))
        \<and> linked h' (last (fake # xs)) e
        \<and> (\<forall>c. c \<notin> {e, hd (ys @ [fake]), last (fake # xs)} \<longrightarrow> h' c = h c))"
  proof
    assume a: "is_list h fake (xs @ ys) \<and> h e = detached"
    then have n: "e \<notin> set (fake # xs @ ys)"
      using detached_notin_cycle[of h "fake # xs @ ys" e] by (simp add: is_list_def)
    have "last (fake # xs) \<in> set (fake # xs)" "hd (ys @ [fake]) \<in> set (ys @ [fake])"
      by (rule last_in_set, simp, rule hd_in_set, simp)
    then have ne: "e \<noteq> last (fake # xs)" "e \<noteq> hd (ys @ [fake])" using n by auto
    from insert_is_list[of h fake xs ys e] a n obtain h' where h':
      "insert_el h (Some (hd (ys @ [fake]))) e = Inr (h', Some e)"
      "is_list h' fake (xs @ e # ys)"
      "\<And>c. nxt (h' c) = (if c = e then Some (hd (ys @ [fake])) else if c = last (fake # xs) then Some e else nxt (h c))"
      "\<And>c. prev (h' c) = (if c = hd (ys @ [fake]) then Some e else if c = e then Some (last (fake # xs)) else prev (h c))"
      "\<And>c. c \<notin> {e, hd (ys @ [fake]), last (fake # xs)} \<Longrightarrow> h' c = h c"
      by blast
    have "linked h' e (hd (ys @ [fake]))" "linked h' (last (fake # xs)) e"
      using ne by (simp_all add: linked_def h'(3,4) del: last.simps)
    with h' show "\<exists>h'. insert_el h (Some (hd (ys @ [fake]))) e = Inr (h', Some e)
        \<and> is_list h' fake (xs @ e # ys)
        \<and> linked h' e (hd (ys @ [fake]))
        \<and> linked h' (last (fake # xs)) e
        \<and> (\<forall>c. c \<notin> {e, hd (ys @ [fake]), last (fake # xs)} \<longrightarrow> h' c = h c)"
      by blast
  qed
  show "map_sum id fst (insert_el h (end_it fake) e) = push_back h fake e"
    by (simp add: insert_el_def push_back_def end_it_def Let_def split: option.splits)
qed

theorem insert_links_before_pos_witness:
  "is_list ring3 0 ([1] @ [2]) \<and> ring3 3 = detached
   \<and> (\<exists>h'. insert_el ring3 (Some 2) 3 = Inr (h', Some 3)
        \<and> is_list h' 0 [1, 3, 2]
        \<and> linked h' 3 2
        \<and> linked h' 1 3)
   \<and> map_sum id fst (insert_el ring3 (end_it 0) 3) = push_back ring3 0 3"
proof -
  have "is_list ring3 0 ([1] @ [2])" "ring3 3 = detached"
    using ring3_is_list by (simp_all add: ring3_def heap0_def)
  then show ?thesis
    using insert_links_before_pos[of ring3 0 "[1]" "[2]" 3] by auto
qed

section \<open>erase\<close>

lemma erase_is_list:
  assumes "is_list h f (xs @ p # ys)"
  shows "nxt (h p) = Some (hd (ys @ [f]))" "prev (h p) = Some (last (f # xs))"
    "is_list (unlink h p) f (xs @ ys)"
    "p \<noteq> last (f # xs)" "p \<noteq> hd (ys @ [f])"
proof -
  have c: "cycle h (p # ys @ f # xs)"
    using assms is_list_rotate[of h f xs "p # ys"] by simp
  show "nxt (h p) = Some (hd (ys @ [f]))"
    using cycle_next[OF c] by (simp add: hd_append)
  show "prev (h p) = Some (last (f # xs))"
    using cycle_prev[OF c] by simp
  show "is_list (unlink h p) f (xs @ ys)"
    using unlink_cycle[OF c] by (simp add: is_list_rotate)
  have d: "distinct (p # ys @ f # xs)" using c by (rule cycle_distinct)
  have "last (f # xs) \<in> set (f # xs)" by (rule last_in_set) simp
  then show "p \<noteq> last (f # xs)" using d by auto
  have "hd (ys @ [f]) \<in> set (ys @ [f])" by (rule hd_in_set) simp
  then show "p \<noteq> hd (ys @ [f])" using d by auto
qed

text \<open>
  Claim C3. In a well-formed list \<open>xs @ p # ys\<close>, \<open>erase\<close> at the element \<open>p\<close> returns
  the iterator that \<open>++\<close> gave at \<open>p\<close> before the call (the first node of \<open>ys\<close>, or
  \<open>end()\<close>), leaves \<open>p\<close> detached, links the former neighbours of \<open>p\<close> to each other,
  leaves the list \<open>xs @ ys\<close>, and changes no other link: \<open>next\<close> changes only at \<open>p\<close>
  and its predecessor, \<open>prev\<close> only at \<open>p\<close> and its successor.
\<close>

theorem erase_unlinks_and_returns_next:
  "is_list h fake (xs @ p # ys) \<longrightarrow>
    (\<exists>h' it. incr h (Some p) = Inr it
       \<and> erase h (Some p) = Inr (h', it)
       \<and> it = Some (hd (ys @ [fake]))
       \<and> h' p = detached
       \<and> linked h' (last (fake # xs)) (hd (ys @ [fake]))
       \<and> is_list h' fake (xs @ ys)
       \<and> (\<forall>c. c \<noteq> p \<and> c \<noteq> last (fake # xs) \<longrightarrow> nxt (h' c) = nxt (h c))
       \<and> (\<forall>c. c \<noteq> p \<and> c \<noteq> hd (ys @ [fake]) \<longrightarrow> prev (h' c) = prev (h c))
       \<and> (\<forall>c. c \<notin> {p, last (fake # xs), hd (ys @ [fake])} \<longrightarrow> h' c = h c))"
proof
  assume l: "is_list h fake (xs @ p # ys)"
  note e = erase_is_list[OF l]
  have "linked (unlink h p) (last (fake # xs)) (hd (ys @ [fake]))"
    using e(4,5) by (simp add: linked_def unlink_fields e(1,2) del: last.simps)
  moreover have "\<forall>c. c \<notin> {p, last (fake # xs), hd (ys @ [fake])} \<longrightarrow> unlink h p c = h c"
    by (auto intro!: unlink_other simp: e(1,2) simp del: last.simps)
  ultimately show "\<exists>h' it. incr h (Some p) = Inr it
       \<and> erase h (Some p) = Inr (h', it)
       \<and> it = Some (hd (ys @ [fake]))
       \<and> h' p = detached
       \<and> linked h' (last (fake # xs)) (hd (ys @ [fake]))
       \<and> is_list h' fake (xs @ ys)
       \<and> (\<forall>c. c \<noteq> p \<and> c \<noteq> last (fake # xs) \<longrightarrow> nxt (h' c) = nxt (h c))
       \<and> (\<forall>c. c \<noteq> p \<and> c \<noteq> hd (ys @ [fake]) \<longrightarrow> prev (h' c) = prev (h c))
       \<and> (\<forall>c. c \<notin> {p, last (fake # xs), hd (ys @ [fake])} \<longrightarrow> h' c = h c)"
    using e(3) by (auto simp: incr_def erase_def Let_def unlink_fields e(1,2) simp del: last.simps)
qed

theorem erase_unlinks_and_returns_next_witness:
  "is_list ring3 0 ([1] @ 2 # []) \<and>
    (\<exists>h'. incr ring3 (Some 2) = Inr (Some 0)
       \<and> erase ring3 (Some 2) = Inr (h', Some 0)
       \<and> h' 2 = detached
       \<and> linked h' 1 0
       \<and> is_list h' 0 [1])"
  using erase_unlinks_and_returns_next[of ring3 0 "[1]" 2 "[]"] ring3_is_list
  by auto

lemma list_element_eqI: "nxt (r :: list_element) = nxt r' \<Longrightarrow> prev r = prev r' \<Longrightarrow> r = r'"
  by simp

lemma insert_then_unlink:
  assumes "cycle h cs" "h e = detached"
    and "\<forall>c. nxt (h' c) = (if c = e then Some (hd cs) else if c = last cs then Some e else nxt (h c))"
    and "\<forall>c. prev (h' c) = (if c = hd cs then Some e else if c = e then Some (last cs) else prev (h c))"
  shows "unlink h' e = h"
proof
  fix c
  have n: "e \<notin> set cs" using assms(1,2) by (rule detached_notin_cycle)
  have ne: "e \<noteq> hd cs" "e \<noteq> last cs"
    using n cycle_nonempty[OF assms(1)] by (metis hd_in_set, metis last_in_set)
  show "unlink h' e c = h c"
  proof (cases "c = e")
    case True
    then show ?thesis by (simp add: unlink_fields assms(2))
  next
    case False
    have "nxt (unlink h' e c) = nxt (h c)" "prev (unlink h' e c) = prev (h c)"
      using False ne cycle_hd_prev[OF assms(1)] cycle_last_next[OF assms(1)]
      by (auto simp: unlink_fields assms(3,4))
    then show ?thesis by (rule list_element_eqI)
  qed
qed

text \<open>
  Claim C9. For a detached element \<open>e\<close> and a position of a well-formed list,
  \<open>insert\<close> followed by \<open>erase\<close> of the returned iterator gives back the heap from
  before the \<open>insert\<close>: every node has its old \<open>next\<close> and \<open>prev\<close>, and \<open>e\<close> is
  detached again. The second call returns the position of the insertion.
\<close>

theorem insert_then_erase_restores:
  "is_list h fake (xs @ ys) \<and> h e = detached \<longrightarrow>
     (\<exists>h1 it h2 it'. insert_el h (Some (hd (ys @ [fake]))) e = Inr (h1, it)
        \<and> erase h1 it = Inr (h2, it')
        \<and> (\<forall>c. nxt (h2 c) = nxt (h c) \<and> prev (h2 c) = prev (h c))
        \<and> h2 e = detached
        \<and> h2 = h
        \<and> it' = Some (hd (ys @ [fake])))"
proof
  assume a: "is_list h fake (xs @ ys) \<and> h e = detached"
  then have c: "cycle h (ys @ fake # xs)" by (simp add: is_list_rotate)
  have n: "e \<notin> set (ys @ fake # xs)" using c a detached_notin_cycle by blast
  have hl: "hd (ys @ fake # xs) = hd (ys @ [fake])" by (simp add: hd_append)
  from insert_cycle[OF c n] obtain h1 where h1:
    "insert_el h (Some (hd (ys @ [fake]))) e = Inr (h1, Some e)"
    "\<forall>c. nxt (h1 c) = (if c = e then Some (hd (ys @ fake # xs)) else if c = last (ys @ fake # xs) then Some e else nxt (h c))"
    "\<forall>c. prev (h1 c) = (if c = hd (ys @ fake # xs) then Some e else if c = e then Some (last (ys @ fake # xs)) else prev (h c))"
    unfolding hl by blast
  have "unlink h1 e = h" using c a h1(2,3) insert_then_unlink by blast
  moreover have "nxt (h1 e) = Some (hd (ys @ [fake]))" by (simp add: h1(2) hl)
  ultimately show "\<exists>h1 it h2 it'. insert_el h (Some (hd (ys @ [fake]))) e = Inr (h1, it)
        \<and> erase h1 it = Inr (h2, it')
        \<and> (\<forall>c. nxt (h2 c) = nxt (h c) \<and> prev (h2 c) = prev (h c))
        \<and> h2 e = detached
        \<and> h2 = h
        \<and> it' = Some (hd (ys @ [fake]))"
    using h1(1) a by (simp add: erase_def Let_def)
qed

theorem insert_then_erase_restores_witness:
  "is_list ring3 0 ([1] @ [2]) \<and> ring3 3 = detached
   \<and> (\<exists>h1 it. insert_el ring3 (Some 2) 3 = Inr (h1, it)
        \<and> erase h1 it = Inr (ring3, Some 2))"
proof -
  have "is_list ring3 0 ([1] @ [2])" "ring3 3 = detached"
    using ring3_is_list by (simp_all add: ring3_def heap0_def)
  then show ?thesis
    using insert_then_erase_restores[of ring3 0 "[1]" "[2]" 3] by auto
qed

section \<open>Reading a well-formed list\<close>

lemma walk_path:
  "successively (linked h) (a # ys @ [f]) \<Longrightarrow> f \<notin> set (a # ys) \<Longrightarrow> walk h f (Some a) = Some (a # ys)"
proof (induction ys arbitrary: a)
  case Nil
  then show ?case 
    by (subst walk.simps, subst walk.simps) (simp add: linked_def end_it_def)
next
  case (Cons y ys)
  then show ?case
    by (subst walk.simps) (simp add: linked_def end_it_def)
qed

lemma is_list_elems: "is_list h f xs \<Longrightarrow> elems h f = Some xs"
proof (cases xs)
  case Nil
  assume "is_list h f xs"
  then show ?thesis using Nil
    by (simp add: is_list_def cycle_def linked_def elems_def begin_it_def end_it_def walk.simps)
next
  case (Cons x r)
  assume "is_list h f xs"
  then have "successively (linked h) (f # x # r @ [f])" "f \<notin> set (x # r)"
    using Cons by (simp_all add: is_list_def cycle_def)
  then show ?thesis using walk_path[of h x r f] Cons
    by (simp add: elems_def begin_it_def linked_def)
qed

lemma is_list_unique: "is_list h f xs \<Longrightarrow> is_list h f ys \<Longrightarrow> xs = ys"
  by (metis is_list_elems option.inject)

lemma is_list_empty: "is_list h f xs \<Longrightarrow> empty_list h f \<longleftrightarrow> xs = []"
  using cycle_next[of h f xs] cycle_distinct[of h "f # xs"]
  by (cases xs) (auto simp: is_list_def empty_list_def)

lemma list_ctor_is_list: "is_list (list_ctor h f) f []"
  by (simp add: is_list_def cycle_def linked_def list_ctor_def set_next_def set_prev_def)

section \<open>Pushes and pops\<close>

lemma push_back_is_list:
  assumes "is_list h f xs" "e \<notin> set (f # xs)"
  shows "\<exists>h'. push_back h f e = Inr h' \<and> is_list h' f (xs @ [e])
     \<and> (\<forall>c. c \<notin> {e, f, last (f # xs)} \<longrightarrow> h' c = h c)"
proof -
  have pb: "push_back h f e = map_sum id fst (insert_el h (Some f) e)"
    by (simp add: insert_el_def push_back_def Let_def split: option.splits)
  from insert_is_list[of h f xs "[]" e] assms obtain h' where
    "insert_el h (Some f) e = Inr (h', Some e)" "is_list h' f (xs @ [e])"
    "\<forall>c. c \<notin> {e, f, last (f # xs)} \<longrightarrow> h' c = h c"
    by auto
  then show ?thesis by (simp add: pb)
qed

lemma push_front_result:
  assumes "nxt (h f) = Some n" "e \<noteq> f" "e \<noteq> n"
  shows "\<exists>h'. push_front h f e = Inr h'
    \<and> (\<forall>c. nxt (h' c) = (if c = e then Some n else if c = f then Some e else nxt (h c)))
    \<and> (\<forall>c. prev (h' c) = (if c = n then Some e else if c = e then Some f else prev (h c)))
    \<and> (\<forall>c. c \<notin> {e, n, f} \<longrightarrow> h' c = h c)"
  using assms
  by (auto simp: push_front_def set_next_def set_prev_def Let_def)

lemma push_front_is_list:
  assumes "is_list h f xs" "e \<notin> set (f # xs)"
  shows "\<exists>h'. push_front h f e = Inr h' \<and> is_list h' f (e # xs)
     \<and> insert_el h (begin_it h f) e = Inr (h', Some e)
     \<and> (\<forall>c. c \<notin> {e, f, hd (xs @ [f])} \<longrightarrow> h' c = h c)"
proof -
  let ?n = "hd (xs @ [f])"
  have n: "nxt (h f) = Some ?n" using assms(1) by (simp add: is_list_def cycle_next)
  have "?n \<in> set (xs @ [f])" by (rule hd_in_set) simp
  then have ne: "e \<noteq> f" "e \<noteq> ?n" using assms(2) by auto
  from push_front_result[of h f ?n e] n ne obtain h' where h':
    "push_front h f e = Inr h'"
    "\<forall>c. nxt (h' c) = (if c = e then Some ?n else if c = f then Some e else nxt (h c))"
    "\<forall>c. prev (h' c) = (if c = ?n then Some e else if c = e then Some f else prev (h c))"
    "\<forall>c. c \<notin> {e, ?n, f} \<longrightarrow> h' c = h c"
    by blast
  from insert_is_list[of h f "[]" xs e] assms obtain h'' where h'':
    "insert_el h (Some ?n) e = Inr (h'', Some e)" "is_list h'' f (e # xs)"
    "\<forall>c. nxt (h'' c) = (if c = e then Some ?n else if c = f then Some e else nxt (h c))"
    "\<forall>c. prev (h'' c) = (if c = ?n then Some e else if c = e then Some f else prev (h c))"
    by auto
  have "h' = h''"
  proof
    fix c show "h' c = h'' c" by (rule list_element_eqI) (simp_all add: h'(2,3) h''(3,4))
  qed
  then show ?thesis using h' h'' n by (auto simp: begin_it_def)
qed

lemma pop_back_is_list:
  assumes "is_list h f xs" "xs \<noteq> []"
  shows "pop_back h f = Inr (unlink h (last xs))" "is_list (unlink h (last xs)) f (butlast xs)"
proof -
  have l: "is_list h f (butlast xs @ last xs # [])" using assms by simp
  have "prev (h f) = Some (last xs)"
    using assms cycle_prev[of h f xs] by (simp add: is_list_def)
  then show "pop_back h f = Inr (unlink h (last xs))" by (simp add: pop_back_def)
  show "is_list (unlink h (last xs)) f (butlast xs)"
    using erase_is_list(3)[OF l] by simp
qed

lemma pop_front_is_list:
  assumes "is_list h f xs" "xs \<noteq> []"
  shows "pop_front h f = Inr (unlink h (hd xs))" "is_list (unlink h (hd xs)) f (tl xs)"
proof -
  have l: "is_list h f ([] @ hd xs # tl xs)" using assms by simp
  have "nxt (h f) = Some (hd xs)"
    using assms cycle_next[of h f xs] by (simp add: is_list_def hd_append)
  then show "pop_front h f = Inr (unlink h (hd xs))" by (simp add: pop_front_def)
  show "is_list (unlink h (hd xs)) f (tl xs)"
    using erase_is_list(3)[OF l] by simp
qed

lemma front_back_is_list:
  assumes "is_list h f xs" "xs \<noteq> []"
  shows "front_el h f = Inr (hd xs)" "back_el h f = Inr (last xs)"
  using assms cycle_next[of h f xs] cycle_prev[of h f xs]
  by (simp_all add: is_list_def front_el_def back_el_def hd_append)

lemma run_ops_refines:
  "is_list h f xs \<Longrightarrow> pops_nonempty xs ops \<Longrightarrow> pushes_unlinked f xs ops \<Longrightarrow>
     \<exists>h'. run_ops h f ops = Inr h' \<and> is_list h' f (deque_run xs ops)"
proof (induction ops arbitrary: h xs)
  case Nil
  then show ?case by simp
next
  case (Cons x r)
  have "\<exists>h1. apply_op h f x = Inr h1 \<and> is_list h1 f (deque_op xs x)"
  proof (cases x)
    case (PushBack e)
    then show ?thesis using Cons.prems push_back_is_list[of h f xs e] by auto
  next
    case (PushFront e)
    then show ?thesis using Cons.prems push_front_is_list[of h f xs e] by auto
  next
    case PopBack
    then show ?thesis using Cons.prems pop_back_is_list[of h f xs] by auto
  next
    case PopFront
    then show ?thesis using Cons.prems pop_front_is_list[of h f xs] by auto
  qed
  then obtain h1 where h1: "apply_op h f x = Inr h1" "is_list h1 f (deque_op xs x)" by blast
  have "pops_nonempty (deque_op xs x) r" "pushes_unlinked f (deque_op xs x) r"
    using Cons.prems(2,3) by (cases x; simp)+
  from Cons.IH[OF h1(2) this] show ?case using h1(1) by simp
qed

text \<open>
  Claim C2, as stated, asks only that every pop meets a non-empty list. That is not
  enough: \<open>push_back\<close> does not check that its element is unlinked, and pushing an
  element that is already in the list relinks it. After \<open>push_back(1); push_back(2);
  push_back(1)\<close> on an empty list the reference container holds \<open>1, 2, 1\<close>, while the
  list read from \<open>begin()\<close> to \<open>end()\<close> holds \<open>1\<close> alone.
\<close>

theorem push_of_linked_element_counterexample:
  "pops_nonempty [] [PushBack 1, PushBack 2, PushBack 1]
   \<and> deque_run [] [PushBack 1, PushBack 2, PushBack 1] = [1, 2, 1]
   \<and> read_after (list_ctor heap0 0) 0 [PushBack 1, PushBack 2, PushBack 1] = Inr (Some [1])
   \<and> read_after (list_ctor heap0 0) 0 [PushBack 1, PushBack 2, PushBack 1]
       \<noteq> Inr (Some (deque_run [] [PushBack 1, PushBack 2, PushBack 1]))"
  by (simp add: read_after_def push_back_def list_ctor_def set_next_def set_prev_def
      elems_def begin_it_def end_it_def walk.simps)

text \<open>
  Claim C2, amended. Start from a well-formed list with contents \<open>xs\<close> (the list the
  constructor builds has contents \<open>[]\<close>). For every sequence of pushes and pops in which
  every pop meets a non-empty list and every push is given an element that is not in the
  list at that moment (and is not the sentinel), the run does not fault, the list read
  from \<open>begin()\<close> to \<open>end()\<close> is the contents of the reference container after the same
  operations, the heap holds that list well-formed, and \<open>empty()\<close> is true exactly when
  the reference container is empty.
\<close>

theorem push_pop_refines_deque:
  "is_list h fake xs \<and> pops_nonempty xs ops \<and> pushes_unlinked fake xs ops \<longrightarrow>
    (\<exists>h'. run_ops h fake ops = Inr h'
        \<and> read_after h fake ops = Inr (Some (deque_run xs ops))
        \<and> is_list h' fake (deque_run xs ops)
        \<and> (empty_list h' fake \<longleftrightarrow> deque_run xs ops = []))"
proof
  assume a: "is_list h fake xs \<and> pops_nonempty xs ops \<and> pushes_unlinked fake xs ops"
  then obtain h' where h': "run_ops h fake ops = Inr h'" "is_list h' fake (deque_run xs ops)"
    using run_ops_refines by blast
  then show "\<exists>h'. run_ops h fake ops = Inr h'
        \<and> read_after h fake ops = Inr (Some (deque_run xs ops))
        \<and> is_list h' fake (deque_run xs ops)
        \<and> (empty_list h' fake \<longleftrightarrow> deque_run xs ops = [])"
    using is_list_elems[OF h'(2)] is_list_empty[OF h'(2)] by (simp add: read_after_def)
qed

theorem push_pop_refines_deque_witness:
  "is_list (list_ctor heap0 0) 0 []
   \<and> pops_nonempty [] [PushBack 1, PushFront 2, PopBack, PushBack 3, PushFront 1]
   \<and> pushes_unlinked 0 [] [PushBack 1, PushFront 2, PopBack, PushBack 3, PushFront 1]
   \<and> (\<exists>h'. run_ops (list_ctor heap0 0) 0 [PushBack 1, PushFront 2, PopBack, PushBack 3, PushFront 1] = Inr h'
        \<and> read_after (list_ctor heap0 0) 0 [PushBack 1, PushFront 2, PopBack, PushBack 3, PushFront 1]
            = Inr (Some [1, 2, 3])
        \<and> is_list h' 0 [1, 2, 3]
        \<and> \<not> empty_list h' 0)"
  using push_pop_refines_deque[of "list_ctor heap0 0" 0 "[]"
      "[PushBack 1, PushFront 2, PopBack, PushBack 3, PushFront 1]"]
    list_ctor_is_list[of heap0 0]
  by simp

section \<open>swap\<close>

text \<open>
  The heap \<open>swap\<close> leaves, field by field, when the two sentinels are different and
  neither sentinel is a neighbour of the other.
\<close>

lemma swap_result:
  assumes l: "nxt (h f) = Some a1" "prev (h f) = Some an" "nxt (h g) = Some b1" "prev (h g) = Some bm"
    and ne: "f \<noteq> g" "a1 \<noteq> g" "an \<noteq> g" "b1 \<noteq> f" "bm \<noteq> f"
    and e: "a1 = f \<longleftrightarrow> an = f" "b1 = g \<longleftrightarrow> bm = g"
  shows "\<exists>h'. swap h f g = Inr h'
    \<and> (\<forall>c. nxt (h' c) =
          (if c = f then (if b1 = g then Some f else Some b1)
           else if c = g then (if a1 = f then Some g else Some a1)
           else if c = bm then Some f else if c = an then Some g else nxt (h c)))
    \<and> (\<forall>c. prev (h' c) =
          (if c = f then (if bm = g then Some f else Some bm)
           else if c = g then (if an = f then Some g else Some an)
           else if c = b1 then Some f else if c = a1 then Some g else prev (h c)))
    \<and> (\<forall>c. c \<notin> {f, g, a1, an, b1, bm} \<longrightarrow> h' c = h c)"
proof -
  define h2 where "h2 = set_next (set_prev h a1 (Some g)) an (Some g)"
  define h4 where "h4 = set_next (set_prev h2 b1 (Some f)) bm (Some f)"
  have g2: "nxt (h2 g) = Some b1" "prev (h2 g) = Some bm"
    using ne by (simp_all add: h2_def set_next_def set_prev_def l)
  have sw: "swap h f g = Inr ((h4(f := h4 g))(g := h4 f))"
    by (simp add: swap_def l Let_def g2 h2_def[symmetric] h4_def[symmetric])
  have n4: "nxt (h4 c) = (if c = bm then Some f else if c = an then Some g else nxt (h c))" for c
    by (simp add: h4_def h2_def set_next_def set_prev_def)
  have p4: "prev (h4 c) = (if c = b1 then Some f else if c = a1 then Some g else prev (h c))" for c
    by (simp add: h4_def h2_def set_next_def set_prev_def)
  have o4: "h4 c = h c" if "c \<notin> {f, g, a1, an, b1, bm}" for c
    using that by (simp add: h4_def h2_def set_next_def set_prev_def)
  have "nxt (((h4(f := h4 g))(g := h4 f)) c) =
          (if c = f then (if b1 = g then Some f else Some b1)
           else if c = g then (if a1 = f then Some g else Some a1)
           else if c = bm then Some f else if c = an then Some g else nxt (h c))" for c
    using ne e by (cases "c = f"; cases "c = g") (auto simp: n4 l)
  moreover have "prev (((h4(f := h4 g))(g := h4 f)) c) =
          (if c = f then (if bm = g then Some f else Some bm)
           else if c = g then (if an = f then Some g else Some an)
           else if c = b1 then Some f else if c = a1 then Some g else prev (h c))" for c
    using ne e by (cases "c = f"; cases "c = g") (auto simp: p4 l)
  moreover have "((h4(f := h4 g))(g := h4 f)) c = h c" if "c \<notin> {f, g, a1, an, b1, bm}" for c
    using that o4 by simp
  ultimately show ?thesis using sw by blast
qed

lemma cycle_new_head:
  assumes "successively (linked h) ys" "distinct (f # ys)"
    and "nxt (h' f) = Some (hd (ys @ [f]))" "prev (h' f) = Some (last (f # ys))"
    and "ys \<noteq> [] \<Longrightarrow> prev (h' (hd ys)) = Some f \<and> nxt (h' (last ys)) = Some f"
    and "\<And>c. c \<in> set (butlast ys) \<Longrightarrow> nxt (h' c) = nxt (h c)"
    and "\<And>c. c \<in> set (tl ys) \<Longrightarrow> prev (h' c) = prev (h c)"
  shows "cycle h' (f # ys)"
proof (cases "ys = []")
  case True
  then show ?thesis using assms(3,4) by (simp add: cycle_def linked_def)
next
  case False
  have s: "successively (linked h') ys"
    using assms(1,6,7) by (rule successively_frame)
  show ?thesis
  proof (rule cycleI)
    show "successively (linked h') (f # ys)"
      using s False assms(3,5) by (simp add: successively_Cons linked_def hd_append)
    show "linked h' (last (f # ys)) (hd (f # ys))"
      using False assms(4,5) by (simp add: linked_def)
  qed (use assms(2) in simp_all)
qed

lemma ends_of_list:
  assumes "distinct (f # xs)"
  shows "hd (xs @ [f]) \<in> set (f # xs)" "last (f # xs) \<in> set (f # xs)"
    "hd (xs @ [f]) = f \<longleftrightarrow> xs = []" "last (f # xs) = f \<longleftrightarrow> xs = []"
    "xs \<noteq> [] \<Longrightarrow> hd (xs @ [f]) = hd xs" "xs \<noteq> [] \<Longrightarrow> last (f # xs) = last xs"
  using assms by (cases xs; cases xs rule: rev_cases; auto)+

lemma cycle_tail_path: "cycle h (g # ys) \<Longrightarrow> successively (linked h) ys"
  using cycle_path[of h "g # ys"] by (cases ys) simp_all

lemma swap_cycles:
  assumes cf: "cycle h (f # xs)" and cg: "cycle h (g # ys)"
    and dj: "set (f # xs) \<inter> set (g # ys) = {}"
  shows "\<exists>h'. swap h f g = Inr h' \<and> cycle h' (f # ys) \<and> cycle h' (g # xs)
    \<and> (\<forall>c. c \<notin> set (f # xs) \<union> set (g # ys) \<longrightarrow> h' c = h c)"
proof -
  let ?a1 = "hd (xs @ [f])" and ?an = "last (f # xs)"
  let ?b1 = "hd (ys @ [g])" and ?bm = "last (g # ys)"
  note df = cycle_distinct[OF cf] and dg = cycle_distinct[OF cg]
  note ef = ends_of_list[OF df] and eg = ends_of_list[OF dg]
  have l: "nxt (h f) = Some ?a1" "prev (h f) = Some ?an" "nxt (h g) = Some ?b1" "prev (h g) = Some ?bm"
    by (rule cycle_next[OF cf], rule cycle_prev[OF cf], rule cycle_next[OF cg], rule cycle_prev[OF cg])
  have "f \<in> set (f # xs)" "g \<in> set (g # ys)" by simp_all
  with dj ef(1,2) eg(1,2) have ne: "f \<noteq> g" "?a1 \<noteq> g" "?an \<noteq> g" "?b1 \<noteq> f" "?bm \<noteq> f"
    by (metis IntI empty_iff)+
  have e: "?a1 = f \<longleftrightarrow> ?an = f" "?b1 = g \<longleftrightarrow> ?bm = g"
    using ef(3,4) eg(3,4) by (simp_all del: last.simps)
  from swap_result[of h f ?a1 ?an g ?b1 ?bm, OF l ne e] obtain h' where h':
    "swap h f g = Inr h'"
    "\<And>c. nxt (h' c) =
          (if c = f then (if ?b1 = g then Some f else Some ?b1)
           else if c = g then (if ?a1 = f then Some g else Some ?a1)
           else if c = ?bm then Some f else if c = ?an then Some g else nxt (h c))"
    "\<And>c. prev (h' c) =
          (if c = f then (if ?bm = g then Some f else Some ?bm)
           else if c = g then (if ?an = f then Some g else Some ?an)
           else if c = ?b1 then Some f else if c = ?a1 then Some g else prev (h c))"
    "\<And>c. c \<notin> {f, g, ?a1, ?an, ?b1, ?bm} \<Longrightarrow> h' c = h c"
    by blast
  have "cycle h' (f # ys)"
  proof (rule cycle_new_head[where h = h])
    show "successively (linked h) ys" using cg by (rule cycle_tail_path)
    show "distinct (f # ys)" using dg dj by auto
    show "nxt (h' f) = Some (hd (ys @ [f]))"
      using eg(3,5) by (cases "ys = []") (simp_all add: h'(2) hd_append del: last.simps)
    show "prev (h' f) = Some (last (f # ys))"
      using eg(4,6) by (cases "ys = []") (simp_all add: h'(3) last_ConsL last_ConsR del: last.simps)
    show "prev (h' (hd ys)) = Some f \<and> nxt (h' (last ys)) = Some f" if "ys \<noteq> []"
    proof -
      have "hd ys \<in> set ys" "last ys \<in> set ys" using that by simp_all
      then have "hd ys \<noteq> f" "hd ys \<noteq> g" "last ys \<noteq> f" "last ys \<noteq> g" using dj dg by auto
      then show ?thesis using eg(5,6)[OF that] by (simp add: h'(2,3) del: last.simps)
    qed
    show "nxt (h' c) = nxt (h c)" if "c \<in> set (butlast ys)" for c
    proof -
      have "ys \<noteq> []" using that by auto
      then have "c \<noteq> ?bm" using that last_notin_butlast[of ys] dg eg(6) by auto
      moreover have "c \<in> set ys" using that by (rule in_set_butlastD)
      then have "c \<noteq> f" "c \<noteq> g" "c \<noteq> ?an" using dj dg ef(2) by auto
      ultimately show ?thesis by (simp add: h'(2) del: last.simps)
    qed
    show "prev (h' c) = prev (h c)" if "c \<in> set (tl ys)" for c
    proof -
      have n: "ys \<noteq> []" using that by auto
      then have "c \<noteq> ?b1" using that hd_notin_tl[of ys] dg eg(5) by auto
      moreover have "c \<in> set ys" using that n by (simp add: list.set_sel(2))
      then have "c \<noteq> f" "c \<noteq> g" "c \<noteq> ?a1" using dj dg ef(1) by auto
      ultimately show ?thesis by (simp add: h'(3) del: last.simps)
    qed
  qed
  moreover have "cycle h' (g # xs)"
  proof (rule cycle_new_head[where h = h])
    show "successively (linked h) xs" using cf by (rule cycle_tail_path)
    show "distinct (g # xs)" using df dj by auto
    show "nxt (h' g) = Some (hd (xs @ [g]))"
      using ef(3,5) ne by (cases "xs = []") (simp_all add: h'(2) hd_append del: last.simps)
    show "prev (h' g) = Some (last (g # xs))"
      using ef(4,6) ne by (cases "xs = []") (simp_all add: h'(3) last_ConsL last_ConsR del: last.simps)
    show "prev (h' (hd xs)) = Some g \<and> nxt (h' (last xs)) = Some g" if "xs \<noteq> []"
    proof -
      have "hd xs \<in> set xs" "last xs \<in> set xs" using that by simp_all
      then have "hd xs \<noteq> f" "hd xs \<noteq> g" "last xs \<noteq> f" "last xs \<noteq> g"
        "hd xs \<noteq> ?b1" "last xs \<noteq> ?bm" using dj df eg(1,2) by auto
      then show ?thesis using ef(5,6)[OF that] by (simp add: h'(2,3) del: last.simps)
    qed
    show "nxt (h' c) = nxt (h c)" if "c \<in> set (butlast xs)" for c
    proof -
      have "xs \<noteq> []" using that by auto
      then have "c \<noteq> ?an" using that last_notin_butlast[of xs] df ef(6) by auto
      moreover have "c \<in> set xs" using that by (rule in_set_butlastD)
      then have "c \<noteq> f" "c \<noteq> g" "c \<noteq> ?bm" using dj df eg(2) by auto
      ultimately show ?thesis by (simp add: h'(2) del: last.simps)
    qed
    show "prev (h' c) = prev (h c)" if "c \<in> set (tl xs)" for c
    proof -
      have n: "xs \<noteq> []" using that by auto
      then have "c \<noteq> ?a1" using that hd_notin_tl[of xs] df ef(5) by auto
      moreover have "c \<in> set xs" using that n by (simp add: list.set_sel(2))
      then have "c \<noteq> f" "c \<noteq> g" "c \<noteq> ?b1" using dj df eg(1) by auto
      ultimately show ?thesis by (simp add: h'(3) del: last.simps)
    qed
  qed
  moreover have "h' c = h c" if "c \<notin> set (f # xs) \<union> set (g # ys)" for c
  proof -
    have "c \<notin> {f, g, ?a1, ?an, ?b1, ?bm}" using that ef(1,2) eg(1,2) by auto
    then show ?thesis by (rule h'(4))
  qed
  ultimately show ?thesis using h'(1) by blast
qed

lemma set_same: "set_prev h a (prev (h a)) = h" "set_next h a (nxt (h a)) = h"
  by (simp_all add: set_prev_def set_next_def)

lemma swap_self:
  assumes "cycle h (f # xs)"
  shows "swap h f f = Inr h"
proof -
  let ?a1 = "hd (xs @ [f])" and ?an = "last (f # xs)"
  have l: "nxt (h f) = Some ?a1" "prev (h f) = Some ?an"
    by (rule cycle_next[OF assms], rule cycle_prev[OF assms])
  have p: "prev (h ?a1) = Some f" "nxt (h ?an) = Some f"
    using cycle_rotate[of h "[f]" xs] assms cycle_hd_prev[of h "xs @ [f]"] cycle_last_next[OF assms]
    by simp_all
  have i: "set_prev h ?a1 (Some f) = h" "set_next h ?an (Some f) = h"
    using set_same[of h ?a1] set_same[of h ?an] unfolding p by simp_all
  show ?thesis
    by (simp add: swap_def l i Let_def del: last.simps)
qed

lemma swap_is_list:
  assumes "is_list h a xs" "is_list h b ys" "a = b \<or> set (a # xs) \<inter> set (b # ys) = {}"
  shows "\<exists>h'. swap h a b = Inr h' \<and> is_list h' a ys \<and> is_list h' b xs
    \<and> (\<forall>c. c \<notin> set (a # xs) \<union> set (b # ys) \<longrightarrow> h' c = h c)"
proof (cases "a = b")
  case True
  then have "xs = ys" using assms(1,2) is_list_unique by blast
  then show ?thesis using True assms(1) swap_self[of h a xs] by (simp add: is_list_def)
next
  case False
  then show ?thesis using assms swap_cycles[of h a xs b ys] by (simp add: is_list_def)
qed

lemma cycle_determines:
  assumes "cycle h cs" "cycle h' cs" "c \<in> set cs"
  shows "h' c = h c"
proof -
  from assms(3) obtain as bs where cs: "cs = as @ c # bs" by (auto simp: in_set_conv_decomp)
  have "cycle h (c # bs @ as)" "cycle h' (c # bs @ as)"
    using assms(1,2) cycle_rotate[of _ as "c # bs"] unfolding cs by simp_all
  then show ?thesis
    using cycle_next[of h c "bs @ as"] cycle_prev[of h c "bs @ as"]
      cycle_next[of h' c "bs @ as"] cycle_prev[of h' c "bs @ as"]
    by (intro list_element_eqI) simp_all
qed

lemma ring3_with_empty: "is_list (list_ctor ring3 5) 0 [1, 2]" "is_list (list_ctor ring3 5) 5 []"
  by (simp_all add: is_list_def cycle_def linked_def ring3_def list_ctor_def set_next_def set_prev_def)

text \<open>
  Claim C5. For two well-formed lists \<open>a\<close> and \<open>b\<close> with element sequences \<open>xs\<close> and
  \<open>ys\<close>, either of which may be empty (two different lists share no node; \<open>a = b\<close> is
  the self-swap), \<open>swap\<close> does not fault and leaves \<open>a\<close> with the sequence \<open>ys\<close> and
  \<open>b\<close> with the sequence \<open>xs\<close>, changing no node outside the two lists. A second
  \<open>swap\<close> gives back the original heap, hence the original contents of both lists.
\<close>

theorem swap_exchanges_and_is_involutive:
  "is_list h a xs \<and> is_list h b ys \<and> (a = b \<or> set (a # xs) \<inter> set (b # ys) = {}) \<longrightarrow>
    (\<exists>h1. swap h a b = Inr h1
        \<and> is_list h1 a ys \<and> is_list h1 b xs
        \<and> elems h1 a = Some ys \<and> elems h1 b = Some xs
        \<and> (\<forall>c. c \<notin> set (a # xs) \<union> set (b # ys) \<longrightarrow> h1 c = h c)
        \<and> (\<exists>h2. swap h1 a b = Inr h2
              \<and> is_list h2 a xs \<and> is_list h2 b ys
              \<and> elems h2 a = Some xs \<and> elems h2 b = Some ys
              \<and> h2 = h))"
proof
  assume a: "is_list h a xs \<and> is_list h b ys \<and> (a = b \<or> set (a # xs) \<inter> set (b # ys) = {})"
  then obtain h1 where h1: "swap h a b = Inr h1" "is_list h1 a ys" "is_list h1 b xs"
    "\<forall>c. c \<notin> set (a # xs) \<union> set (b # ys) \<longrightarrow> h1 c = h c"
    using swap_is_list[of h a xs b ys] by blast
  have d: "a = b \<or> set (a # ys) \<inter> set (b # xs) = {}"
    using a cycle_distinct[of h "a # xs"] cycle_distinct[of h "b # ys"]
    by (auto simp: is_list_def)
  obtain h2 where h2: "swap h1 a b = Inr h2" "is_list h2 a xs" "is_list h2 b ys"
    "\<forall>c. c \<notin> set (a # ys) \<union> set (b # xs) \<longrightarrow> h2 c = h1 c"
    using swap_is_list[OF h1(2,3) d] by blast
  have "h2 c = h c" for c
  proof -
    consider "c \<in> set (a # xs)" | "c \<in> set (b # ys)" | "c \<notin> set (a # xs) \<union> set (b # ys)"
      by blast
    then show ?thesis
    proof cases
      case 1
      then show ?thesis using a h2(2) cycle_determines[of h "a # xs" h2 c] by (simp add: is_list_def)
    next
      case 2
      then show ?thesis using a h2(3) cycle_determines[of h "b # ys" h2 c] by (simp add: is_list_def)
    next
      case 3
      then have "c \<notin> set (a # ys) \<union> set (b # xs)" by auto
      then show ?thesis using 3 h1(4) h2(4) by simp
    qed
  qed
  then have "h2 = h" by (rule ext)
  then show "\<exists>h1. swap h a b = Inr h1
        \<and> is_list h1 a ys \<and> is_list h1 b xs
        \<and> elems h1 a = Some ys \<and> elems h1 b = Some xs
        \<and> (\<forall>c. c \<notin> set (a # xs) \<union> set (b # ys) \<longrightarrow> h1 c = h c)
        \<and> (\<exists>h2. swap h1 a b = Inr h2
              \<and> is_list h2 a xs \<and> is_list h2 b ys
              \<and> elems h2 a = Some xs \<and> elems h2 b = Some ys
              \<and> h2 = h)"
    using h1 h2 is_list_elems by (intro exI[of _ h1]) simp
qed

theorem swap_exchanges_and_is_involutive_witness:
  "is_list (list_ctor ring3 5) 0 [1, 2] \<and> is_list (list_ctor ring3 5) 5 []
   \<and> set (0 # [1, 2 :: addr]) \<inter> set (5 # []) = {}
   \<and> (\<exists>h1. swap (list_ctor ring3 5) 0 5 = Inr h1
        \<and> is_list h1 0 [] \<and> is_list h1 5 [1, 2]
        \<and> elems h1 0 = Some [] \<and> elems h1 5 = Some [1, 2]
        \<and> swap h1 0 5 = Inr (list_ctor ring3 5))"
proof -
  have "set (0 # [1, 2 :: addr]) \<inter> set (5 # []) = {}" by simp
  then show ?thesis
    using swap_exchanges_and_is_involutive[of "list_ctor ring3 5" 0 "[1, 2]" 5 "[]"] ring3_with_empty
    by auto
qed

section \<open>clear and the move operations\<close>

lemma cycle_frame:
  assumes "cycle h cs" "\<And>c. c \<in> set cs \<Longrightarrow> h' c = h c"
  shows "cycle h' cs"
proof (rule cycleI)
  note ne = cycle_nonempty[OF assms(1)]
  show "successively (linked h') cs"
  proof (rule successively_frame[OF cycle_path[OF assms(1)]])
    show "nxt (h' c) = nxt (h c)" if "c \<in> set (butlast cs)" for c
      using assms(2)[of c] that by (simp add: in_set_butlastD)
    show "prev (h' c) = prev (h c)" if "c \<in> set (tl cs)" for c
      using assms(2)[of c] that ne by (simp add: list.set_sel(2))
  qed
  show "linked h' (last cs) (hd cs)"
    using cycle_close[OF assms(1)] assms(2)[of "last cs"] assms(2)[of "hd cs"] ne
    by (simp add: linked_def)
qed (use assms(1) in \<open>simp_all add: cycle_def\<close>)

lemma cycle_closed:
  assumes "cycle h cs" "p \<in> set cs"
  shows "\<exists>n \<in> set cs. nxt (h p) = Some n" "\<exists>q \<in> set cs. prev (h p) = Some q"
proof -
  from assms(2) obtain as bs where cs: "cs = as @ p # bs" by (auto simp: in_set_conv_decomp)
  have c: "cycle h (p # bs @ as)" using assms(1) cycle_rotate[of h as "p # bs"] unfolding cs by simp
  have "hd ((bs @ as) @ [p]) \<in> set ((bs @ as) @ [p])" by (rule hd_in_set) simp
  then show "\<exists>n \<in> set cs. nxt (h p) = Some n" using cycle_next[OF c] unfolding cs by auto
  have "last (p # bs @ as) \<in> set (p # bs @ as)" by (rule last_in_set) simp
  then show "\<exists>q \<in> set cs. prev (h p) = Some q" using cycle_prev[OF c] unfolding cs by auto
qed

lemma unlink_frame:
  assumes "cycle h cs" "p \<in> set cs" "c \<notin> set cs"
  shows "unlink h p c = h c"
  using cycle_closed[OF assms(1,2)] assms(2,3) by (intro unlink_other) auto

lemma clear_is_list:
  "is_list h f xs \<Longrightarrow>
     \<exists>h'. clear h f = Some (Inr h') \<and> is_list h' f []
       \<and> (\<forall>x \<in> set xs. h' x = detached)
       \<and> (\<forall>c. c \<notin> set (f # xs) \<longrightarrow> h' c = h c)"
proof (induction xs arbitrary: h)
  case Nil
  then have "nxt (h f) = Some f" using cycle_next[of h f "[]"] by (simp add: is_list_def)
  then show ?case using Nil by (subst clear.simps) simp
next
  case (Cons x r)
  have n: "nxt (h f) = Some x" using Cons.prems cycle_next[of h f "x # r"] by (simp add: is_list_def)
  have d: "distinct (f # x # r)" using Cons.prems cycle_distinct[of h "f # x # r"] by (simp add: is_list_def)
  have u: "is_list (unlink h x) f r" using pop_front_is_list(2)[OF Cons.prems] by simp
  from Cons.IH[OF u] obtain h' where h': "clear (unlink h x) f = Some (Inr h')" "is_list h' f []"
    "\<forall>y \<in> set r. h' y = detached" "\<forall>c. c \<notin> set (f # r) \<longrightarrow> h' c = unlink h x c"
    by blast
  have "clear h f = Some (Inr h')"
    using n d h'(1) by (subst clear.simps) simp
  moreover have "h' x = detached" using h'(4) d by (simp add: unlink_fields)
  moreover have "h' c = h c" if "c \<notin> set (f # x # r)" for c
    using that h'(4) unlink_frame[of h "f # x # r" x c] Cons.prems by (simp add: is_list_def)
  ultimately show ?case using h'(2,3) by auto
qed

lemma is_list_frame:
  "is_list h f xs \<Longrightarrow> (\<And>c. c \<in> set (f # xs) \<Longrightarrow> h' c = h c) \<Longrightarrow> is_list h' f xs"
  unfolding is_list_def by (rule cycle_frame)

lemma list_ctor_other: "c \<noteq> f \<Longrightarrow> list_ctor h f c = h c"
  by (simp add: list_ctor_def set_next_def set_prev_def)

lemma move_ctor_is_list:
  assumes "is_list h s xs" "d \<notin> set (s # xs)"
  shows "\<exists>h'. move_ctor h d s = Some (Inr h') \<and> is_list h' d xs \<and> is_list h' s []
     \<and> (\<forall>c. c \<notin> set (d # s # xs) \<longrightarrow> h' c = h c)"
proof -
  let ?h0 = "list_ctor h d"
  have s0: "is_list ?h0 s xs"
    using assms by (intro is_list_frame[OF assms(1)] list_ctor_other) auto
  have d0: "is_list ?h0 d []" by (rule list_ctor_is_list)
  have dj: "d = s \<or> set (d # []) \<inter> set (s # xs) = {}" using assms(2) by auto
  from swap_is_list[OF d0 s0 dj] obtain h1 where h1: "swap ?h0 d s = Inr h1"
    "is_list h1 d xs" "is_list h1 s []" "\<forall>c. c \<notin> set (d # []) \<union> set (s # xs) \<longrightarrow> h1 c = ?h0 c"
    by blast
  from clear_is_list[OF h1(3)] obtain h' where h': "clear h1 s = Some (Inr h')" "is_list h' s []"
    "\<forall>c. c \<notin> set (s # []) \<longrightarrow> h' c = h1 c"
    by blast
  have "is_list h' d xs"
    using assms(2) h1(2) h'(3) cycle_distinct[of h1 "d # xs"] assms(1) cycle_distinct[of h "s # xs"]
    by (intro is_list_frame[OF h1(2)]) (auto simp: is_list_def)
  moreover have "h' c = h c" if "c \<notin> set (d # s # xs)" for c
    using that h'(3) h1(4) list_ctor_other[of c d h] by auto
  ultimately show ?thesis using h1(1) h'(1,2) by (simp add: move_ctor_def)
qed

lemma move_assign_is_list:
  assumes "is_list h s xs" "is_list h d ds" "set (s # xs) \<inter> set (d # ds) = {}"
  shows "\<exists>h'. move_assign h d s = Some (Inr h') \<and> is_list h' d xs \<and> is_list h' s []
     \<and> (\<forall>x \<in> set ds. h' x = detached)
     \<and> (\<forall>c. c \<notin> set (d # ds) \<union> set (s # xs) \<longrightarrow> h' c = h c)"
proof -
  have dj: "d = s \<or> set (d # ds) \<inter> set (s # xs) = {}" using assms(3) by auto
  from swap_is_list[OF assms(2,1) dj] obtain h1 where h1: "swap h d s = Inr h1"
    "is_list h1 d xs" "is_list h1 s ds" "\<forall>c. c \<notin> set (d # ds) \<union> set (s # xs) \<longrightarrow> h1 c = h c"
    by blast
  from clear_is_list[OF h1(3)] obtain h' where h': "clear h1 s = Some (Inr h')" "is_list h' s []"
    "\<forall>x \<in> set ds. h' x = detached" "\<forall>c. c \<notin> set (s # ds) \<longrightarrow> h' c = h1 c"
    by blast
  have "is_list h' d xs"
  proof (rule is_list_frame[OF h1(2)])
    fix c assume "c \<in> set (d # xs)"
    then have "c \<notin> set (s # ds)"
      using assms(3) cycle_distinct[of h "s # xs"] cycle_distinct[of h "d # ds"] assms(1,2)
      by (auto simp: is_list_def)
    then show "h' c = h1 c" using h'(4) by blast
  qed
  moreover have "h' c = h c" if "c \<notin> set (d # ds) \<union> set (s # xs)" for c
    using that h'(4) h1(4) by auto
  ultimately show ?thesis using h1(1) h'(1,2,3) by (simp add: move_assign_def)
qed

lemma two_lists_are_lists: "is_list two_lists 0 [1, 2]" "is_list two_lists 5 [6]"
  by (simp_all add: is_list_def cycle_def linked_def two_lists_def ring3_def)

text \<open>
  Claim C6. Let \<open>s\<close> be a well-formed list with element sequence \<open>xs\<close>. Move-constructing
  a list at a fresh address \<open>d\<close> from \<open>s\<close>, and move-assigning \<open>s\<close> to a different
  well-formed list \<open>d\<close> (which shares no node with \<open>s\<close>), both return without fault,
  leave \<open>s\<close> empty and leave \<open>d\<close> with exactly the sequence \<open>xs\<close>.
\<close>

theorem move_leaves_source_empty:
  "(is_list h s xs \<and> d \<notin> set (s # xs) \<longrightarrow>
      (\<exists>h'. move_ctor h d s = Some (Inr h')
         \<and> is_list h' s [] \<and> empty_list h' s
         \<and> is_list h' d xs \<and> elems h' d = Some xs))
   \<and> (is_list h s xs \<and> is_list h d ds \<and> set (s # xs) \<inter> set (d # ds) = {} \<longrightarrow>
      (\<exists>h'. move_assign h d s = Some (Inr h')
         \<and> is_list h' s [] \<and> empty_list h' s
         \<and> is_list h' d xs \<and> elems h' d = Some xs))"
proof (intro conjI impI)
  assume "is_list h s xs \<and> d \<notin> set (s # xs)"
  then obtain h' where "move_ctor h d s = Some (Inr h')" "is_list h' d xs" "is_list h' s []"
    using move_ctor_is_list[of h s xs d] by blast
  then show "\<exists>h'. move_ctor h d s = Some (Inr h')
         \<and> is_list h' s [] \<and> empty_list h' s
         \<and> is_list h' d xs \<and> elems h' d = Some xs"
    using is_list_elems is_list_empty by (intro exI[of _ h']) simp
next
  assume "is_list h s xs \<and> is_list h d ds \<and> set (s # xs) \<inter> set (d # ds) = {}"
  then obtain h' where "move_assign h d s = Some (Inr h')" "is_list h' d xs" "is_list h' s []"
    using move_assign_is_list[of h s xs d ds] by blast
  then show "\<exists>h'. move_assign h d s = Some (Inr h')
         \<and> is_list h' s [] \<and> empty_list h' s
         \<and> is_list h' d xs \<and> elems h' d = Some xs"
    using is_list_elems is_list_empty by (intro exI[of _ h']) simp
qed

theorem move_leaves_source_empty_witness:
  "is_list two_lists 0 [1, 2] \<and> (9 :: addr) \<notin> set (0 # [1, 2])
   \<and> (\<exists>h'. move_ctor two_lists 9 0 = Some (Inr h')
         \<and> is_list h' 0 [] \<and> empty_list h' 0
         \<and> is_list h' 9 [1, 2] \<and> elems h' 9 = Some [1, 2])
   \<and> is_list two_lists 5 [6] \<and> set (0 # [1, 2 :: addr]) \<inter> set (5 # [6]) = {}
   \<and> (\<exists>h'. move_assign two_lists 5 0 = Some (Inr h')
         \<and> is_list h' 0 [] \<and> empty_list h' 0
         \<and> is_list h' 5 [1, 2] \<and> elems h' 5 = Some [1, 2])"
proof -
  have "(9 :: addr) \<notin> set (0 # [1, 2])" "set (0 # [1, 2 :: addr]) \<inter> set (5 # [6]) = {}"
    by simp_all
  then show ?thesis
    using move_leaves_source_empty[of two_lists 0 "[1, 2]" 9]
      move_leaves_source_empty[of two_lists 0 "[1, 2]" 5 "[6]"] two_lists_are_lists
    by blast
qed

section \<open>splice\<close>

text \<open>
  The heap \<open>splice\<close> leaves, field by field. \<open>tr\<close> is the position, \<open>tl'\<close> the node
  before it, \<open>fl\<close> and \<open>fr\<close> the first and the last node of the range, \<open>la\<close> the end
  of the range and \<open>flp\<close> the node before the range. The hypotheses \<open>fl \<noteq> tr\<close> and
  \<open>fr \<noteq> tl'\<close> say that the position is neither the first node of the range nor its
  end.
\<close>

lemma splice_result:
  assumes l: "prev (h tr) = Some tl'" "prev (h la) = Some fr" "prev (h fl) = Some flp"
      "nxt (h fr) = Some la"
    and ne: "fl \<noteq> la" "fl \<noteq> tr" "fr \<noteq> tl'" "fr \<noteq> flp"
  shows "\<exists>h'. splice_range h (Some tr) (Some fl) (Some la) = Inr h'
    \<and> (\<forall>c. nxt (h' c) =
          (if c = fr then Some tr else if c = flp then Some la
           else if c = tl' then Some fl else nxt (h c)))
    \<and> (\<forall>c. prev (h' c) =
          (if c = fl then Some tl' else if c = la then Some flp
           else if c = tr then Some fr else prev (h c)))
    \<and> (\<forall>c. c \<notin> {tr, tl', fl, fr, la, flp} \<longrightarrow> h' c = h c)"
proof -
  define h2 where "h2 = set_prev (set_next h tl' (Some fl)) tr (Some fr)"
  have a2: "prev (h2 fl) = Some flp" "nxt (h2 fr) = Some la"
    using ne l by (auto simp: h2_def set_next_def set_prev_def)
  define h3 where "h3 = set_next h2 flp (Some la)"
  have a3: "nxt (h3 fr) = Some la" "prev (h3 fl) = Some flp"
    using ne a2 by (auto simp: h3_def set_next_def)
  define h6 where "h6 = set_next (set_prev (set_prev h3 la (Some flp)) fl (Some tl')) fr (Some tr)"
  have sp: "splice_range h (Some tr) (Some fl) (Some la) = Inr h6"
    using ne(1)
    by (simp add: splice_range_def l Let_def h2_def[symmetric] a2 h3_def[symmetric] a3 h6_def[symmetric])
  have "nxt (h6 c) = (if c = fr then Some tr else if c = flp then Some la
           else if c = tl' then Some fl else nxt (h c))" for c
    by (simp add: h6_def h3_def h2_def set_next_def set_prev_def)
  moreover have "prev (h6 c) = (if c = fl then Some tl' else if c = la then Some flp
           else if c = tr then Some fr else prev (h c))" for c
    by (simp add: h6_def h3_def h2_def set_next_def set_prev_def)
  moreover have "h6 c = h c" if "c \<notin> {tr, tl', fl, fr, la, flp}" for c
    using that by (simp add: h6_def h3_def h2_def set_next_def set_prev_def)
  ultimately show ?thesis using sp by blast
qed

lemma ends_differ:
  assumes "set X \<inter> set Y = {}" "X \<noteq> []" "Y \<noteq> []"
  shows "last X \<noteq> last Y" "hd X \<noteq> hd Y" "last X \<notin> set Y" "hd X \<notin> set Y"
    "last Y \<notin> set X" "hd Y \<notin> set X"
proof -
  have m: "hd X \<in> set X" "last X \<in> set X" "hd Y \<in> set Y" "last Y \<in> set Y"
    using assms(2,3) by simp_all
  show "last X \<noteq> last Y" "hd X \<noteq> hd Y" "last X \<notin> set Y" "hd X \<notin> set Y"
    "last Y \<notin> set X" "hd Y \<notin> set X"
    using m assms(1) by (metis IntI empty_iff)+
qed

lemma segment_kept:
  assumes S: "successively (linked h) S" "distinct S" "S \<noteq> []"
    and nk: "\<And>c. c \<in> set S \<Longrightarrow> c \<noteq> last S \<Longrightarrow> nxt (h' c) = nxt (h c)"
    and pk: "\<And>c. c \<in> set S \<Longrightarrow> c \<noteq> hd S \<Longrightarrow> prev (h' c) = prev (h c)"
  shows "successively (linked h') S"
proof (rule successively_frame[OF S(1)])
  fix c assume c: "c \<in> set (butlast S)"
  then have "c \<in> set S" by (rule in_set_butlastD)
  moreover have "c \<noteq> last S" using c last_notin_butlast[OF S(2,3)] by metis
  ultimately show "nxt (h' c) = nxt (h c)" by (rule nk)
next
  fix c assume c: "c \<in> set (tl S)"
  then have "c \<in> set S" using S(3) by (simp add: list.set_sel(2))
  moreover have "c \<noteq> hd S" using c hd_notin_tl[OF S(2,3)] by metis
  ultimately show "prev (h' c) = prev (h c)" by (rule pk)
qed

lemma splice_segments:
  assumes d: "distinct (P @ B @ Q)" and n: "P \<noteq> []" "B \<noteq> []" "Q \<noteq> []"
    and s: "successively (linked h) P" "successively (linked h) B" "successively (linked h) Q"
    and t: "(tl' = last P \<and> flp = last Q) \<or> (tl' = last Q \<and> flp = last P)"
    and nx: "\<And>c. nxt (h' c) =
          (if c = last B then Some (hd P) else if c = flp then Some (hd Q)
           else if c = tl' then Some (hd B) else nxt (h c))"
    and pv: "\<And>c. prev (h' c) =
          (if c = hd B then Some tl' else if c = hd Q then Some flp
           else if c = hd P then Some (last B) else prev (h c))"
  shows "successively (linked h') P" "successively (linked h') B" "successively (linked h') Q"
    "linked h' (last B) (hd P)" "linked h' flp (hd Q)" "linked h' tl' (hd B)"
proof -
  have dP: "distinct P" and dB: "distinct B" and dQ: "distinct Q"
    and PB: "set P \<inter> set B = {}" and PQ: "set P \<inter> set Q = {}" and BQ: "set B \<inter> set Q = {}"
    using d by auto
  note e1 = ends_differ[OF PB n(1,2)] and e2 = ends_differ[OF PQ n(1,3)]
    and e3 = ends_differ[OF BQ n(2,3)]
  have nxt_keep: "nxt (h' c) = nxt (h c)" if "c \<noteq> last P" "c \<noteq> last B" "c \<noteq> last Q" for c
    using that t by (auto simp: nx)
  have prev_keep: "prev (h' c) = prev (h c)" if "c \<noteq> hd P" "c \<noteq> hd B" "c \<noteq> hd Q" for c
    using that by (simp add: pv)
  show "successively (linked h') P"
  proof (rule segment_kept[OF s(1) dP n(1)])
    fix c assume "c \<in> set P" "c \<noteq> last P"
    then show "nxt (h' c) = nxt (h c)" using e1(5) e2(5) by (intro nxt_keep) metis+
  next
    fix c assume "c \<in> set P" "c \<noteq> hd P"
    then show "prev (h' c) = prev (h c)" using e1(6) e2(6) by (intro prev_keep) metis+
  qed
  show "successively (linked h') B"
  proof (rule segment_kept[OF s(2) dB n(2)])
    fix c assume "c \<in> set B" "c \<noteq> last B"
    then show "nxt (h' c) = nxt (h c)" using e1(3) e3(5) by (intro nxt_keep) metis+
  next
    fix c assume "c \<in> set B" "c \<noteq> hd B"
    then show "prev (h' c) = prev (h c)" using e1(4) e3(6) by (intro prev_keep) metis+
  qed
  show "successively (linked h') Q"
  proof (rule segment_kept[OF s(3) dQ n(3)])
    fix c assume "c \<in> set Q" "c \<noteq> last Q"
    then show "nxt (h' c) = nxt (h c)" using e2(3) e3(3) by (intro nxt_keep) metis+
  next
    fix c assume "c \<in> set Q" "c \<noteq> hd Q"
    then show "prev (h' c) = prev (h c)" using e2(4) e3(4) by (intro prev_keep) metis+
  qed
  show "linked h' (last B) (hd P)"
    using e1(2) e2(2) by (simp add: linked_def nx pv)
  show "linked h' flp (hd Q)"
    using t e1(1) e3(1,2) by (auto simp: linked_def nx pv)
  show "linked h' tl' (hd B)"
    using t e1(1) e2(1) e3(1) by (auto simp: linked_def nx pv)
qed

lemma cycle_segments:
  assumes "cycle h (X @ Y)" "X \<noteq> []" "Y \<noteq> []"
  shows "successively (linked h) X" "successively (linked h) Y"
    "prev (h (hd X)) = Some (last Y)" "nxt (h (last Y)) = Some (hd X)"
    "prev (h (hd Y)) = Some (last X)" "nxt (h (last X)) = Some (hd Y)"
proof -
  show "successively (linked h) X" "successively (linked h) Y"
    using cycle_path[OF assms(1)] by (simp_all add: successively_append_iff)
  show "prev (h (hd X)) = Some (last Y)" "nxt (h (last Y)) = Some (hd X)"
    using cycle_hd_prev[OF assms(1)] cycle_last_next[OF assms(1)] assms(2,3) by simp_all
  have "cycle h (Y @ X)" using assms(1) by (rule cycle_rotate)
  then show "prev (h (hd Y)) = Some (last X)" "nxt (h (last X)) = Some (hd Y)"
    using cycle_hd_prev[of h "Y @ X"] cycle_last_next[of h "Y @ X"] assms(2,3) by simp_all
qed

text \<open>
  Between two different lists \<open>splice\<close> moves the range \<open>B\<close> out of the cycle
  \<open>Q @ B\<close> and to the end of the cycle \<open>P\<close>, that is, right before \<open>hd P\<close>.
\<close>

lemma splice_two_cycles:
  assumes cP: "cycle h P" and cO: "cycle h (Q @ B)" and n: "B \<noteq> []" "Q \<noteq> []"
    and dj: "set P \<inter> set (Q @ B) = {}"
  shows "\<exists>h'. splice_range h (Some (hd P)) (Some (hd B)) (Some (hd Q)) = Inr h'
    \<and> cycle h' (P @ B) \<and> cycle h' Q
    \<and> (\<forall>c. c \<notin> set P \<union> set Q \<union> set B \<longrightarrow> h' c = h c)"
proof -
  note nP = cycle_nonempty[OF cP]
  note sg = cycle_segments[OF cO n(2,1)]
  have d: "distinct (P @ B @ Q)"
    using cycle_distinct[OF cP] cycle_distinct[OF cO] dj by auto
  have PB: "set P \<inter> set B = {}" and PQ: "set P \<inter> set Q = {}" and BQ: "set B \<inter> set Q = {}"
    using d by auto
  note e1 = ends_differ[OF PB nP n(1)] and e2 = ends_differ[OF PQ nP n(2)]
    and e3 = ends_differ[OF BQ n(1,2)]
  have l: "prev (h (hd P)) = Some (last P)" "prev (h (hd Q)) = Some (last B)"
    "prev (h (hd B)) = Some (last Q)" "nxt (h (last B)) = Some (hd Q)"
    using cycle_hd_prev[OF cP] sg(3-6) by simp_all
  have ne: "hd B \<noteq> hd Q" "hd B \<noteq> hd P" "last B \<noteq> last P" "last B \<noteq> last Q"
    using e1(1,2) e3(1,2) by simp_all
  from splice_result[of h "hd P" "last P" "hd Q" "last B" "hd B" "last Q", OF l ne]
  obtain h' where h': "splice_range h (Some (hd P)) (Some (hd B)) (Some (hd Q)) = Inr h'"
    "\<And>c. nxt (h' c) =
          (if c = last B then Some (hd P) else if c = last Q then Some (hd Q)
           else if c = last P then Some (hd B) else nxt (h c))"
    "\<And>c. prev (h' c) =
          (if c = hd B then Some (last P) else if c = hd Q then Some (last Q)
           else if c = hd P then Some (last B) else prev (h c))"
    "\<And>c. c \<notin> {hd P, last P, hd B, last B, hd Q, last Q} \<Longrightarrow> h' c = h c"
    by blast
  have t: "(last P = last P \<and> last Q = last Q) \<or> (last P = last Q \<and> last Q = last P)" by simp
  note seg = splice_segments[OF d nP n cycle_path[OF cP] sg(2,1) t h'(2,3)]
  have "distinct (P @ B)" "distinct Q" using d by auto
  then have "cycle h' (P @ B) \<and> cycle h' Q"
    using seg nP n by (intro conjI cycleI; simp add: successively_append_iff)
  moreover have "h' c = h c" if "c \<notin> set P \<union> set Q \<union> set B" for c
  proof (rule h'(4))
    have "hd P \<in> set P" "last P \<in> set P" "hd B \<in> set B" "last B \<in> set B"
      "hd Q \<in> set Q" "last Q \<in> set Q"
      using nP n by simp_all
    then show "c \<notin> {hd P, last P, hd B, last B, hd Q, last Q}" using that by blast
  qed
  ultimately show ?thesis using h'(1) by blast
qed

text \<open>
  Inside one list, with the position \<open>hd P\<close> outside the range \<open>B\<close> and different from
  the end \<open>hd Q\<close> of the range, \<open>splice\<close> moves \<open>B\<close> right before \<open>hd P\<close>.
\<close>

lemma splice_one_cycle:
  assumes c: "cycle h (P @ B @ Q)" and n: "P \<noteq> []" "B \<noteq> []" "Q \<noteq> []"
  shows "\<exists>h'. splice_range h (Some (hd P)) (Some (hd B)) (Some (hd Q)) = Inr h'
    \<and> cycle h' (P @ Q @ B)
    \<and> (\<forall>c. c \<notin> set P \<union> set Q \<union> set B \<longrightarrow> h' c = h c)"
proof -
  have d: "distinct (P @ B @ Q)" using c by (rule cycle_distinct)
  have PB: "set P \<inter> set B = {}" and PQ: "set P \<inter> set Q = {}" and BQ: "set B \<inter> set Q = {}"
    using d by auto
  note e1 = ends_differ[OF PB n(1,2)] and e2 = ends_differ[OF PQ n(1,3)]
    and e3 = ends_differ[OF BQ n(2,3)]
  have c1: "cycle h (P @ (B @ Q))" using c by simp
  have c2: "cycle h ((P @ B) @ Q)" using c by simp
  have c3: "cycle h (B @ (Q @ P))" using cycle_rotate[OF c1] by simp
  have s: "successively (linked h) P" "successively (linked h) B" "successively (linked h) Q"
    using cycle_path[OF c] by (simp_all add: successively_append_iff)
  have l: "prev (h (hd P)) = Some (last Q)" "prev (h (hd Q)) = Some (last B)"
    "prev (h (hd B)) = Some (last P)" "nxt (h (last B)) = Some (hd Q)"
    using cycle_segments(3)[OF c1] cycle_segments(5,6)[OF c2] cycle_segments(5)[OF c1] n
    by (simp_all add: hd_append)
  have ne: "hd B \<noteq> hd Q" "hd B \<noteq> hd P" "last B \<noteq> last Q" "last B \<noteq> last P"
    using e1(1,2) e3(1,2) by simp_all
  from splice_result[of h "hd P" "last Q" "hd Q" "last B" "hd B" "last P", OF l ne]
  obtain h' where h': "splice_range h (Some (hd P)) (Some (hd B)) (Some (hd Q)) = Inr h'"
    "\<And>c. nxt (h' c) =
          (if c = last B then Some (hd P) else if c = last P then Some (hd Q)
           else if c = last Q then Some (hd B) else nxt (h c))"
    "\<And>c. prev (h' c) =
          (if c = hd B then Some (last Q) else if c = hd Q then Some (last P)
           else if c = hd P then Some (last B) else prev (h c))"
    "\<And>c. c \<notin> {hd P, last Q, hd B, last B, hd Q, last P} \<Longrightarrow> h' c = h c"
    by blast
  have t: "(last Q = last P \<and> last P = last Q) \<or> (last Q = last Q \<and> last P = last P)" by simp
  note seg = splice_segments[OF d n s t h'(2,3)]
  have "distinct (P @ Q @ B)" using d by auto
  then have "cycle h' (P @ Q @ B)"
    using seg n by (intro cycleI) (simp_all add: successively_append_iff)
  moreover have "h' c = h c" if "c \<notin> set P \<union> set Q \<union> set B" for c
  proof (rule h'(4))
    have "hd P \<in> set P" "last P \<in> set P" "hd B \<in> set B" "last B \<in> set B"
      "hd Q \<in> set Q" "last Q \<in> set Q"
      using n by simp_all
    then show "c \<notin> {hd P, last Q, hd B, last B, hd Q, last P}" using that by blast
  qed
  ultimately show ?thesis using h'(1) by blast
qed

lemma splice_is_list:
  assumes t: "is_list h this (xs @ ys)" and o: "is_list h other (as @ bs @ cs)"
    and dj: "set (this # xs @ ys) \<inter> set (other # as @ bs @ cs) = {}"
  shows "\<exists>h'. splice_range h (Some (hd (ys @ [this]))) (Some (hd (bs @ cs @ [other])))
            (Some (hd (cs @ [other]))) = Inr h'
    \<and> is_list h' this (xs @ bs @ ys) \<and> is_list h' other (as @ cs)
    \<and> (\<forall>c. c \<notin> set (this # xs @ ys) \<union> set (other # as @ bs @ cs) \<longrightarrow> h' c = h c)"
proof (cases "bs = []")
  case True
  then show ?thesis using t o by (simp add: splice_range_def)
next
  case False
  let ?P = "ys @ this # xs" and ?Q = "cs @ other # as"
  have cP: "cycle h ?P" using t by (simp add: is_list_rotate)
  have cO: "cycle h (?Q @ bs)" using o is_list_rotate[of h other "as @ bs" cs] by simp
  have dj': "set ?P \<inter> set (?Q @ bs) = {}" using dj by auto
  have hd: "hd ?P = hd (ys @ [this])" "hd bs = hd (bs @ cs @ [other])" "hd ?Q = hd (cs @ [other])"
    using False by (simp_all add: hd_append)
  from splice_two_cycles[OF cP cO False _ dj'] obtain h' where h':
    "splice_range h (Some (hd ?P)) (Some (hd bs)) (Some (hd ?Q)) = Inr h'"
    "cycle h' (?P @ bs)" "cycle h' ?Q"
    "\<forall>c. c \<notin> set ?P \<union> set ?Q \<union> set bs \<longrightarrow> h' c = h c"
    by blast
  have "is_list h' this (xs @ bs @ ys)"
    using h'(2) is_list_rotate[of h' this "xs @ bs" ys] by simp
  moreover have "is_list h' other (as @ cs)"
    using h'(3) by (simp add: is_list_rotate)
  moreover have "\<forall>c. c \<notin> set (this # xs @ ys) \<union> set (other # as @ bs @ cs) \<longrightarrow> h' c = h c"
    using h'(4) by auto
  ultimately show ?thesis using h'(1) unfolding hd by blast
qed

lemma splice_same_list_before:
  assumes "is_list h f (x1 @ x2 @ bs @ ys)" "x2 \<noteq> []" "bs \<noteq> []"
  shows "\<exists>h'. splice_range h (Some (hd x2)) (Some (hd bs)) (Some (hd (ys @ [f]))) = Inr h'
    \<and> is_list h' f (x1 @ bs @ x2 @ ys)
    \<and> (\<forall>c. c \<notin> set (f # x1 @ x2 @ bs @ ys) \<longrightarrow> h' c = h c)"
proof -
  let ?Q = "ys @ f # x1"
  have c: "cycle h (x2 @ bs @ ?Q)"
    using assms(1) is_list_rotate[of h f x1 "x2 @ bs @ ys"] by simp
  have hd: "hd ?Q = hd (ys @ [f])" by (simp add: hd_append)
  from splice_one_cycle[OF c assms(2,3)] obtain h' where h':
    "splice_range h (Some (hd x2)) (Some (hd bs)) (Some (hd ?Q)) = Inr h'" "cycle h' (x2 @ ?Q @ bs)"
    "\<forall>c. c \<notin> set x2 \<union> set ?Q \<union> set bs \<longrightarrow> h' c = h c"
    by blast
  have "is_list h' f (x1 @ bs @ x2 @ ys)"
    using h'(2) is_list_rotate[of h' f "x1 @ bs" "x2 @ ys"] by simp
  moreover have "\<forall>c. c \<notin> set (f # x1 @ x2 @ bs @ ys) \<longrightarrow> h' c = h c"
    using h'(3) by auto
  ultimately show ?thesis using h'(1) unfolding hd by blast
qed

lemma splice_same_list_after:
  assumes "is_list h f (xs @ bs @ y1 @ y2)" "bs \<noteq> []" "y1 \<noteq> []"
  shows "\<exists>h'. splice_range h (Some (hd (y2 @ [f]))) (Some (hd bs)) (Some (hd y1)) = Inr h'
    \<and> is_list h' f (xs @ y1 @ bs @ y2)
    \<and> (\<forall>c. c \<notin> set (f # xs @ bs @ y1 @ y2) \<longrightarrow> h' c = h c)"
proof -
  let ?P = "y2 @ f # xs"
  have c: "cycle h (?P @ bs @ y1)"
    using assms(1) is_list_rotate[of h f "xs @ bs @ y1" y2] by simp
  have hd: "hd ?P = hd (y2 @ [f])" by (simp add: hd_append)
  from splice_one_cycle[OF c _ assms(2,3)] obtain h' where h':
    "splice_range h (Some (hd ?P)) (Some (hd bs)) (Some (hd y1)) = Inr h'" "cycle h' (?P @ y1 @ bs)"
    "\<forall>c. c \<notin> set ?P \<union> set y1 \<union> set bs \<longrightarrow> h' c = h c"
    by blast
  have "is_list h' f (xs @ y1 @ bs @ y2)"
    using h'(2) is_list_rotate[of h' f "xs @ y1 @ bs" y2] by simp
  moreover have "\<forall>c. c \<notin> set (f # xs @ bs @ y1 @ y2) \<longrightarrow> h' c = h c"
    using h'(3) by auto
  ultimately show ?thesis using h'(1) unfolding hd by blast
qed

text \<open>
  Inside one list, when the range ends at the position (\<open>pos = last\<close>, which is not
  inside \<open>[first, last)\<close>), nothing should move. The code binds \<open>to_left\<close> to the last
  node of the range, and its last but one statement stores that node in \<open>first.prev\<close>:
  the heap is the old one with the \<open>prev\<close> of the first node of the range pointing at
  the last node of the range. Read forwards the list is unchanged, but it is no longer a
  well-formed list.
\<close>

lemma splice_result_adjacent:
  assumes l: "prev (h p) = Some fr" "prev (h fl) = Some flp" "nxt (h fr) = Some p"
      "nxt (h flp) = Some fl"
    and ne: "fl \<noteq> p" "fr \<noteq> flp"
  shows "splice_range h (Some p) (Some fl) (Some p) = Inr (set_prev h fl (Some fr))"
proof -
  define h2 where "h2 = set_prev (set_next h fr (Some fl)) p (Some fr)"
  have a2: "prev (h2 fl) = Some flp" "nxt (h2 fr) = Some fl"
    using ne l by (auto simp: h2_def set_next_def set_prev_def)
  define h3 where "h3 = set_next h2 flp (Some fl)"
  have a3: "nxt (h3 fr) = Some fl" "prev (h3 fl) = Some flp"
    using ne a2 by (auto simp: h3_def set_next_def)
  define h6 where "h6 = set_next (set_prev (set_prev h3 fl (Some flp)) fl (Some fr)) fr (Some p)"
  have sp: "splice_range h (Some p) (Some fl) (Some p) = Inr h6"
    using ne(1)
    by (simp add: splice_range_def l Let_def h2_def[symmetric] a2 h3_def[symmetric] a3 h6_def[symmetric])
  have "h6 c = set_prev h fl (Some fr) c" for c
    using l ne
    by (intro list_element_eqI) (auto simp: h6_def h3_def h2_def set_next_def set_prev_def)
  then show ?thesis using sp by (simp add: fun_eq_iff)
qed

lemma walk_next_path:
  "successively (\<lambda>a b. nxt (h a) = Some b) (a # ys @ [f]) \<Longrightarrow> f \<notin> set (a # ys)
    \<Longrightarrow> walk h f (Some a) = Some (a # ys)"
proof (induction ys arbitrary: a)
  case Nil
  then show ?case
    by (subst walk.simps, subst walk.simps) (simp add: end_it_def)
next
  case (Cons y ys)
  then show ?case
    by (subst walk.simps) (simp add: end_it_def)
qed

lemma elems_next_only:
  assumes "is_list h f xs" "\<And>c. nxt (h' c) = nxt (h c)"
  shows "elems h' f = Some xs"
proof -
  have "successively (linked h) (f # xs @ [f])" "f \<notin> set xs"
    using assms(1) by (simp_all add: is_list_def cycle_def)
  then have p: "successively (\<lambda>a b. nxt (h' a) = Some b) (f # xs @ [f])"
    by (auto elim!: successively_mono simp: linked_def assms(2))
  show ?thesis
  proof (cases xs)
    case Nil
    then show ?thesis using p by (simp add: elems_def begin_it_def end_it_def walk.simps)
  next
    case (Cons x r)
    then show ?thesis
      using p \<open>f \<notin> set xs\<close> walk_next_path[of h' x r f]
      by (simp add: elems_def begin_it_def)
  qed
qed

lemma splice_same_list_at_last:
  assumes "is_list h f (xs @ bs @ ys)" "bs \<noteq> []"
  shows "splice_range h (Some (hd (ys @ [f]))) (Some (hd bs)) (Some (hd (ys @ [f])))
           = Inr (set_prev h (hd bs) (Some (last bs)))"
    "elems (set_prev h (hd bs) (Some (last bs))) f = Some (xs @ bs @ ys)"
    "\<not> is_list (set_prev h (hd bs) (Some (last bs))) f zs"
proof -
  let ?P = "ys @ f # xs" and ?h' = "set_prev h (hd bs) (Some (last bs))"
  have c: "cycle h (?P @ bs)"
    using assms(1) is_list_rotate[of h f "xs @ bs" ys] by simp
  have hd: "hd ?P = hd (ys @ [f])" by (simp add: hd_append)
  note sg = cycle_segments[OF c _ assms(2)]
  have d: "distinct (?P @ bs)" using c by (rule cycle_distinct)
  then have dj: "set ?P \<inter> set bs = {}" by auto
  note e = ends_differ[OF dj _ assms(2)]
  have l: "prev (h (hd ?P)) = Some (last bs)" "prev (h (hd bs)) = Some (last ?P)"
    "nxt (h (last bs)) = Some (hd ?P)" "nxt (h (last ?P)) = Some (hd bs)"
    using sg(3-6) by simp_all
  have ne: "hd bs \<noteq> hd ?P" "last bs \<noteq> last ?P" using e(1,2) by simp_all
  show "splice_range h (Some (hd (ys @ [f]))) (Some (hd bs)) (Some (hd (ys @ [f]))) = Inr ?h'"
    using splice_result_adjacent[OF l ne] unfolding hd .
  show el: "elems ?h' f = Some (xs @ bs @ ys)"
    using assms(1) by (rule elems_next_only) (simp add: set_prev_def)
  show "\<not> is_list ?h' f zs"
  proof
    assume z: "is_list ?h' f zs"
    then have "zs = xs @ bs @ ys" using el is_list_elems by fastforce
    then have "cycle ?h' (bs @ ?P)"
      using z is_list_rotate[of ?h' f xs "bs @ ys"] by simp
    then have "prev (?h' (hd bs)) = Some (last ?P)"
      using cycle_hd_prev[of ?h' "bs @ ?P"] assms(2) by simp
    then show False using ne(2) by (simp add: set_prev_def)
  qed
qed

text \<open>
  Claim C4 at the call \<open>L.splice(it2, L, L.begin(), it2)\<close> on the list \<open>L = [1, 2]\<close>
  with sentinel \<open>0\<close>, where \<open>it2\<close> is the iterator to \<open>2\<close>: the range is \<open>[1]\<close> and
  the position \<open>2\<close> is not inside it, so the call is within the precondition of
  \<open>splice\<close>. The call returns, the list still reads \<open>[1, 2]\<close>
  from \<open>begin()\<close> to \<open>end()\<close>, but node \<open>1\<close> now has \<open>prev = 1\<close>: \<open>--\<close> at the first
  element stays there, and the heap no longer holds the list \<open>[1, 2]\<close>, nor any other
  well-formed list at the sentinel \<open>0\<close>.
\<close>

theorem splice_range_ending_at_pos_corrupts_list:
  "is_list ring3 0 [1, 2]
   \<and> splice_pre ring3 0 0 (Some 2) (begin_it ring3 0) (Some 2)
   \<and> splice_range ring3 (Some 2) (begin_it ring3 0) (Some 2) = Inr (set_prev ring3 1 (Some 1))
   \<and> elems (set_prev ring3 1 (Some 1)) 0 = Some [1, 2]
   \<and> decr (set_prev ring3 1 (Some 1)) (Some 1) = Inr (Some 1)
   \<and> \<not> is_list (set_prev ring3 1 (Some 1)) 0 [1, 2]
   \<and> \<not> list_inv (set_prev ring3 1 (Some 1)) 0"
proof -
  have l: "is_list ring3 0 ([] @ [1] @ [2])" using ring3_is_list by simp
  have b: "begin_it ring3 0 = Some 1" by (simp add: begin_it_def ring3_def)
  have e: "elems ring3 0 = Some [1, 2]" using ring3_is_list by (rule is_list_elems)
  have "valid_range ring3 0 (Some 1) (Some 2) [1]"
    unfolding valid_range_def e by (rule exI[of _ "[]"], rule exI[of _ "[2]"]) simp
  then have "\<exists>r. valid_range ring3 0 (Some 1) (Some 2) r \<and> Some 2 \<notin> Some ` set r"
    by (intro exI[of _ "[1]"]) simp
  moreover have "position ring3 0 (Some 2)" by (simp add: position_def e)
  ultimately have "splice_pre ring3 0 0 (Some 2) (Some 1) (Some 2)"
    by (simp add: splice_pre_def)
  moreover have "\<not> list_inv (set_prev ring3 1 (Some 1)) 0"
    using splice_same_list_at_last(3)[OF l] by (auto simp: list_inv_def)
  ultimately show ?thesis
    using splice_same_list_at_last[OF l] ring3_is_list
    by (simp add: b decr_def set_prev_def)
qed

section \<open>The invariant over all operations\<close>

text \<open>
  Every operation keeps the ghost invariant \<open>good\<close>, \<open>splice\<close> under the stronger
  precondition \<open>splice_pre_apart\<close>. \<open>good_update\<close> is the frame argument shared by all
  of them: an operation that rebuilds the lists \<open>T\<close> inside their old nodes and the
  fresh nodes \<open>E\<close>, leaves every node it drops detached and touches nothing else, keeps
  the invariant.
\<close>

lemma goodD:
  assumes "good h L C"
  shows "f \<in> L \<Longrightarrow> is_list h f (C f)"
    "f \<in> L \<Longrightarrow> g \<in> L \<Longrightarrow> f \<noteq> g \<Longrightarrow> set (f # C f) \<inter> set (g # C g) = {}"
    "c \<notin> owned C L \<Longrightarrow> h c = detached"
  using assms unfolding good_def by blast+

lemma owned_not_detached:
  assumes "good h L C" "c \<in> owned C L"
  shows "h c \<noteq> detached"
proof -
  from assms(2) obtain f where f: "f \<in> L" "c \<in> set (f # C f)" unfolding owned_def by blast
  have "cycle h (f # C f)" using goodD(1)[OF assms(1) f(1)] by (simp add: is_list_def)
  then show ?thesis using f(2) detached_notin_cycle by blast
qed

lemma owned_mono: "T \<subseteq> L \<Longrightarrow> owned C T \<subseteq> owned C L"
  unfolding owned_def by blast

lemma owned_mem: "c \<in> owned C L \<longleftrightarrow> (\<exists>f \<in> L. c \<in> set (f # C f))"
  unfolding owned_def by blast

lemma good_update:
  assumes g: "good h L C" and T: "T \<subseteq> L"
    and l: "\<And>f. f \<in> T \<Longrightarrow> is_list h' f (C' f)"
    and same: "\<And>f. f \<notin> T \<Longrightarrow> C' f = C f"
    and fr: "\<And>c. c \<notin> owned C T \<union> E \<Longrightarrow> h' c = h c"
    and E: "E \<inter> owned C L = {}"
    and sub: "owned C' T \<subseteq> owned C T \<union> E"
    and dj: "\<And>a b. a \<in> T \<Longrightarrow> b \<in> T \<Longrightarrow> a \<noteq> b \<Longrightarrow> set (a # C' a) \<inter> set (b # C' b) = {}"
    and det: "\<And>c. c \<in> owned C T \<union> E \<Longrightarrow> c \<notin> owned C' T \<Longrightarrow> h' c = detached"
  shows "good h' L C'"
proof -
  have out: "c \<notin> owned C T \<union> E" if "a \<in> L" "a \<notin> T" "c \<in> set (a # C a)" for a c
  proof -
    have "c \<notin> owned C T"
    proof
      assume "c \<in> owned C T"
      then obtain t where t: "t \<in> T" "c \<in> set (t # C t)" unfolding owned_mem by blast
      then have "t \<in> L" "a \<noteq> t" using T that(2) by auto
      then show False using goodD(2)[OF g that(1), of t] that(3) t(2) by blast
    qed
    moreover have "c \<in> owned C L" using that(1,3) unfolding owned_mem by blast
    ultimately show ?thesis using E by blast
  qed
  show ?thesis unfolding good_def
  proof (intro conjI ballI allI impI)
    fix a assume a: "a \<in> L"
    show "is_list h' a (C' a)"
    proof (cases "a \<in> T")
      case True
      then show ?thesis by (rule l)
    next
      case False
      have "h' c = h c" if "c \<in> set (a # C a)" for c
        using out[OF a False that] by (rule fr)
      then show ?thesis using is_list_frame[OF goodD(1)[OF g a]] same[OF False] by simp
    qed
  next
    fix a b assume ab: "a \<in> L" "b \<in> L" "a \<noteq> b"
    have cross: "set (x # C' x) \<inter> set (y # C' y) = {}"
      if "x \<in> T" "y \<in> L" "y \<notin> T" for x y
    proof -
      have "set (x # C' x) \<subseteq> owned C' T" using that(1) unfolding owned_def by blast
      then have "set (x # C' x) \<subseteq> owned C T \<union> E" using sub by (rule subset_trans)
      moreover have "set (y # C' y) \<inter> (owned C T \<union> E) = {}"
        using out[OF that(2,3)] same[OF that(3)] by auto
      ultimately show ?thesis by blast
    qed
    show "set (a # C' a) \<inter> set (b # C' b) = {}"
    proof (cases "a \<in> T"; cases "b \<in> T")
      assume "a \<in> T" "b \<in> T"
      then show ?thesis using ab(3) by (rule dj)
    next
      assume "a \<in> T" "b \<notin> T"
      then show ?thesis using cross ab(2) by blast
    next
      assume "a \<notin> T" "b \<in> T"
      then show ?thesis using cross[of b a] ab(1) by blast
    next
      assume "a \<notin> T" "b \<notin> T"
      then show ?thesis using goodD(2)[OF g ab] same by simp
    qed
  next
    fix c assume c: "c \<notin> owned C' L"
    then have cT: "c \<notin> owned C' T" using owned_mono[OF T] by blast
    show "h' c = detached"
    proof (cases "c \<in> owned C T \<union> E")
      case True
      then show ?thesis using cT by (rule det)
    next
      case False
      have "c \<notin> owned C L"
      proof
        assume "c \<in> owned C L"
        then obtain a where a: "a \<in> L" "c \<in> set (a # C a)" unfolding owned_mem by blast
        then have "a \<notin> T" using False by (auto simp: owned_def)
        then have "c \<in> set (a # C' a)" using a(2) same by simp
        then have "c \<in> owned C' L" using a(1) unfolding owned_mem by blast
        then show False using c by simp
      qed
      then show ?thesis using fr[OF False] goodD(3)[OF g] by simp
    qed
  qed
qed

lemma good_update1:
  assumes g: "good h L C" and f: "f \<in> L"
    and l: "is_list h' f xs'"
    and fr: "\<And>c. c \<notin> set (f # C f) \<union> E \<Longrightarrow> h' c = h c"
    and E: "E \<inter> owned C L = {}"
    and sub: "set xs' \<subseteq> set (C f) \<union> E"
    and det: "\<And>c. c \<in> set (C f) \<union> E \<Longrightarrow> c \<notin> set xs' \<Longrightarrow> h' c = detached"
  shows "good h' L (C(f := xs'))"
proof (rule good_update[OF g, where T = "{f}" and E = E])
  show "owned (C(f := xs')) {f} \<subseteq> owned C {f} \<union> E" using sub by (auto simp: owned_def)
  show "h' c = detached" if "c \<in> owned C {f} \<union> E" "c \<notin> owned (C(f := xs')) {f}" for c
    using that det[of c] by (auto simp: owned_def)
qed (use f l fr E in \<open>auto simp: owned_def\<close>)

lemma good_update2:
  assumes g: "good h L C" and f: "f \<in> L" "g \<in> L" "f \<noteq> g"
    and l: "is_list h' f xs'" "is_list h' g ys'"
    and fr: "\<And>c. c \<notin> set (f # C f) \<union> set (g # C g) \<Longrightarrow> h' c = h c"
    and sub: "set xs' \<union> set ys' \<subseteq> set (C f) \<union> set (C g)"
    and dj: "set xs' \<inter> set ys' = {}"
    and det: "\<And>c. c \<in> set (C f) \<union> set (C g) \<Longrightarrow> c \<notin> set xs' \<union> set ys' \<Longrightarrow> h' c = detached"
  shows "good h' L (C(f := xs', g := ys'))"
proof (rule good_update[OF g, where T = "{f, g}" and E = "{}"])
  note ne = goodD(2)[OF g f]
  have fg: "f \<notin> set (C g)" "g \<notin> set (C f)" using ne by auto
  show "owned (C(f := xs', g := ys')) {f, g} \<subseteq> owned C {f, g} \<union> {}"
    using sub f(3) by (auto simp: owned_def)
  show "h' c = detached"
    if "c \<in> owned C {f, g} \<union> {}" "c \<notin> owned (C(f := xs', g := ys')) {f, g}" for c
    using that det[of c] f(3) by (auto simp: owned_def)
  show "set (a # (C(f := xs', g := ys')) a) \<inter> set (b # (C(f := xs', g := ys')) b) = {}"
    if "a \<in> {f, g}" "b \<in> {f, g}" "a \<noteq> b" for a b
  proof -
    have "f \<notin> set (C f)" "g \<notin> set (C g)"
      using cycle_distinct[of h "f # C f"] cycle_distinct[of h "g # C g"]
        goodD(1)[OF g f(1)] goodD(1)[OF g f(2)]
      by (simp_all add: is_list_def)
    then have "f \<notin> set ys'" "g \<notin> set xs'" using sub fg by blast+
    then show ?thesis using that dj f(3) by auto
  qed
  show "h' c = h c" if "c \<notin> owned C {f, g} \<union> {}" for c
    using that by (intro fr) (auto simp: owned_def)
qed (use f l in \<open>auto simp: owned_def\<close>)

lemma cycle_mutual:
  assumes "cycle h cs" "n \<in> set cs"
  shows "\<exists>m p. nxt (h n) = Some m \<and> prev (h m) = Some n \<and> prev (h n) = Some p \<and> nxt (h p) = Some n"
proof -
  from assms(2) obtain as bs where cs: "cs = as @ n # bs" by (auto simp: in_set_conv_decomp)
  have c: "cycle h ((n # bs @ as))" using assms(1) cycle_rotate[of h as "n # bs"] unfolding cs by simp
  have "cycle h ((bs @ as) @ [n])" using cycle_rotate[of h "[n]" "bs @ as"] c by simp
  then have "linked h n (hd ((bs @ as) @ [n]))"
    using cycle_close[of h "(bs @ as) @ [n]"] by simp
  moreover have "linked h (last (n # bs @ as)) n" using cycle_close[OF c] by simp
  ultimately show ?thesis unfolding linked_def by blast
qed

lemma good_invariant:
  assumes "good h L C"
  shows "invariant h L"
  unfolding invariant_def
proof (intro conjI ballI)
  show "mutual_links h"
    unfolding mutual_links_def
  proof
    fix n
    show "h n = detached \<or> (\<exists>m p. nxt (h n) = Some m \<and> prev (h m) = Some n
        \<and> prev (h n) = Some p \<and> nxt (h p) = Some n)"
    proof (cases "n \<in> owned C L")
      case True
      then obtain f where "f \<in> L" "n \<in> set (f # C f)" unfolding owned_mem by blast
      then show ?thesis
        using goodD(1)[OF assms, of f] cycle_mutual[of h "f # C f" n] by (simp add: is_list_def)
    next
      case False
      then show ?thesis using goodD(3)[OF assms] by simp
    qed
  qed
next
  fix f assume "f \<in> L"
  then have l: "is_list h f (C f)" by (rule goodD(1)[OF assms])
  have "nxt (h f) = Some f \<and> prev (h f) = Some f \<longleftrightarrow> C f = []"
    using cycle_next[of h f "C f"] cycle_prev[of h f "C f"] cycle_distinct[of h "f # C f"] l
      ends_of_list(3)[of f "C f"]
    by (auto simp: is_list_def)
  then show "list_inv h f"
    unfolding list_inv_def using l is_list_empty[OF l] by blast
qed

lemma good_start: "good (\<lambda>_. detached) {} C"
  by (simp add: good_def)

lemma good_new:
  assumes g: "good h L C" and f: "f \<notin> L" "h f = detached"
  shows "good (list_ctor h f) (insert f L) (C(f := []))"
proof -
  have nf: "f \<notin> owned C L" using owned_not_detached[OF g] f(2) by blast
  show ?thesis unfolding good_def
  proof (intro conjI ballI allI impI)
    fix a assume a: "a \<in> insert f L"
    show "is_list (list_ctor h f) a ((C(f := [])) a)"
    proof (cases "a = f")
      case True
      then show ?thesis by (simp add: list_ctor_is_list)
    next
      case False
      then have aL: "a \<in> L" using a by simp
      have "f \<notin> set (a # C a)" using nf aL unfolding owned_mem by blast
      then show ?thesis
        using is_list_frame[OF goodD(1)[OF g aL], of "list_ctor h f"] False list_ctor_other[of _ f h]
        by (metis fun_upd_other)
    qed
  next
    fix a b assume ab: "a \<in> insert f L" "b \<in> insert f L" "a \<noteq> b"
    show "set (a # (C(f := [])) a) \<inter> set (b # (C(f := [])) b) = {}"
    proof (cases "a = f"; cases "b = f")
      assume "a \<noteq> f" "b \<noteq> f"
      then show ?thesis using goodD(2)[OF g, of a b] ab by simp
    next
      assume "a = f" "b \<noteq> f"
      then have "f \<notin> set (b # C b)" using nf ab unfolding owned_mem by blast
      then show ?thesis using \<open>a = f\<close> \<open>b \<noteq> f\<close> by simp
    next
      assume "a \<noteq> f" "b = f"
      then have "f \<notin> set (a # C a)" using nf ab unfolding owned_mem by blast
      then show ?thesis using \<open>a \<noteq> f\<close> \<open>b = f\<close> by simp
    next
      assume "a = f" "b = f"
      then show ?thesis using ab by simp
    qed
  next
    fix c assume c: "c \<notin> owned (C(f := [])) (insert f L)"
    then have "c \<noteq> f" unfolding owned_def by auto
    moreover have "c \<notin> owned C L"
    proof
      assume "c \<in> owned C L"
      then obtain a where a: "a \<in> L" "c \<in> set (a # C a)" unfolding owned_mem by blast
      then have "a \<noteq> f" using f(1) by blast
      then have "c \<in> set (a # (C(f := [])) a)" using a(2) by simp
      then show False using c a(1) unfolding owned_mem by blast
    qed
    ultimately show "list_ctor h f c = detached"
      using goodD(3)[OF g] by (simp add: list_ctor_other)
  qed
qed

lemma good_position:
  assumes "good h L C" "f \<in> L" "position h f pos"
  shows "\<exists>xs ys. C f = xs @ ys \<and> pos = Some (hd (ys @ [f]))"
proof -
  have "elems h f = Some (C f)" using goodD(1)[OF assms(1,2)] by (rule is_list_elems)
  then obtain p where p: "pos = Some p" "p \<in> set (f # C f)"
    using assms(3) by (auto simp: position_def)
  show ?thesis
  proof (cases "p = f")
    case True
    then show ?thesis using p(1) by (intro exI[of _ "C f"] exI[of _ "[]"]) simp
  next
    case False
    then obtain xs ys where "C f = xs @ p # ys" using p(2) by (auto simp: in_set_conv_decomp)
    then show ?thesis using p(1) by (intro exI[of _ xs] exI[of _ "p # ys"]) simp
  qed
qed

lemma detached_not_owned: "good h L C \<Longrightarrow> h e = detached \<Longrightarrow> e \<notin> owned C L"
  using owned_not_detached by blast

lemma owned_list: "f \<in> L \<Longrightarrow> set (f # C f) \<subseteq> owned C L"
  unfolding owned_def by blast

lemma step_insert:
  assumes g: "good h L C" and f: "f \<in> L" and p: "position h f pos" and e: "h e = detached"
    and r: "insert_el h pos e = Inr (h', it)"
  shows "\<exists>C'. good h' L C'"
proof -
  from good_position[OF g f p] obtain xs ys where s: "C f = xs @ ys" "pos = Some (hd (ys @ [f]))"
    by blast
  have l: "is_list h f (xs @ ys)" using goodD(1)[OF g f] s(1) by simp
  have no: "e \<notin> owned C L" using g e by (rule detached_not_owned)
  then have ne: "e \<notin> set (f # xs @ ys)" using owned_list[OF f, of C] s(1) by auto
  from insert_is_list[OF l ne] r s(2) have h': "is_list h' f (xs @ e # ys)"
    "\<forall>c. c \<notin> {e, hd (ys @ [f]), last (f # xs)} \<longrightarrow> h' c = h c"
    by auto
  have m: "hd (ys @ [f]) \<in> set (f # C f)" "last (f # xs) \<in> set (f # C f)"
    unfolding s(1) using hd_in_set[of "ys @ [f]"] last_in_set[of "f # xs"] by auto
  have "good h' L (C(f := xs @ e # ys))"
  proof (rule good_update1[OF g f h'(1), where E = "{e}"])
    show "h' c = h c" if "c \<notin> set (f # C f) \<union> {e}" for c
      using that h'(2) m by blast
  qed (use no s(1) in auto)
  then show ?thesis by blast
qed

lemma step_push_back:
  assumes g: "good h L C" and f: "f \<in> L" and e: "h e = detached"
    and r: "push_back h f e = Inr h'"
  shows "\<exists>C'. good h' L C'"
proof -
  have pb: "push_back h f e = map_sum id fst (insert_el h (end_it f) e)"
    by (simp add: insert_el_def push_back_def end_it_def Let_def split: option.splits)
  have "elems h f = Some (C f)" using goodD(1)[OF g f] by (rule is_list_elems)
  then have p: "position h f (end_it f)" by (simp add: position_def end_it_def)
  from r pb obtain it where "insert_el h (end_it f) e = Inr (h', it)"
    by (cases "insert_el h (end_it f) e") auto
  then show ?thesis using step_insert[OF g f p e] by blast
qed

lemma step_push_front:
  assumes g: "good h L C" and f: "f \<in> L" and e: "h e = detached"
    and r: "push_front h f e = Inr h'"
  shows "\<exists>C'. good h' L C'"
proof -
  have l: "is_list h f (C f)" using g f by (rule goodD(1))
  have "e \<notin> owned C L" using g e by (rule detached_not_owned)
  then have ne: "e \<notin> set (f # C f)" using owned_list[OF f, of C] by auto
  have "elems h f = Some (C f)" using l by (rule is_list_elems)
  moreover have "nxt (h f) = Some (hd (C f @ [f]))" using l by (simp add: is_list_def cycle_next)
  moreover have "hd (C f @ [f]) \<in> set (C f @ [f])" by (rule hd_in_set) simp
  ultimately have p: "position h f (begin_it h f)"
    by (auto simp: position_def begin_it_def)
  from push_front_is_list[OF l ne] r have "insert_el h (begin_it h f) e = Inr (h', Some e)"
    by auto
  then show ?thesis using step_insert[OF g f p e] by blast
qed

lemma step_unlink:
  assumes g: "good h L C" and f: "f \<in> L" and s: "C f = xs @ p # ys"
  shows "good (unlink h p) L (C(f := xs @ ys))"
proof -
  have l: "is_list h f (xs @ p # ys)" using goodD(1)[OF g f] s by simp
  have c: "cycle h (f # C f)" using goodD(1)[OF g f] by (simp add: is_list_def)
  show ?thesis
  proof (rule good_update1[OF g f erase_is_list(3)[OF l], where E = "{}"])
    show "unlink h p c = h c" if "c \<notin> set (f # C f) \<union> {}" for c
      using that unlink_frame[OF c, of p c] s by simp
    show "unlink h p c = detached" if "c \<in> set (C f) \<union> {}" "c \<notin> set (xs @ ys)" for c
      using that s by (auto simp: unlink_fields)
  qed (use s in auto)
qed

lemma step_erase:
  assumes g: "good h L C" and f: "f \<in> L" and p: "position h f pos" "pos \<noteq> end_it f"
    and r: "erase h pos = Inr (h', it)"
  shows "\<exists>C'. good h' L C'"
proof -
  from good_position[OF g f p(1)] obtain xs ys where s: "C f = xs @ ys" "pos = Some (hd (ys @ [f]))"
    by blast
  then obtain q zs where ys: "ys = q # zs" using p(2) by (cases ys) (auto simp: end_it_def)
  have "h' = unlink h q" using r s(2) ys by (simp add: erase_def Let_def)
  then show ?thesis using step_unlink[OF g f, of xs q zs] s(1) ys by blast
qed

lemma step_pop_back:
  assumes g: "good h L C" and f: "f \<in> L" and ne: "\<not> empty_list h f" and r: "pop_back h f = Inr h'"
  shows "\<exists>C'. good h' L C'"
proof -
  have l: "is_list h f (C f)" using g f by (rule goodD(1))
  then have n: "C f \<noteq> []" using ne is_list_empty by blast
  then have "h' = unlink h (last (C f))" using pop_back_is_list(1)[OF l] r by simp
  moreover have "C f = butlast (C f) @ last (C f) # []" using n by simp
  ultimately show ?thesis using step_unlink[OF g f] by blast
qed

lemma step_pop_front:
  assumes g: "good h L C" and f: "f \<in> L" and ne: "\<not> empty_list h f" and r: "pop_front h f = Inr h'"
  shows "\<exists>C'. good h' L C'"
proof -
  have l: "is_list h f (C f)" using g f by (rule goodD(1))
  then have n: "C f \<noteq> []" using ne is_list_empty by blast
  then have "h' = unlink h (hd (C f))" using pop_front_is_list(1)[OF l] r by simp
  moreover have "C f = [] @ hd (C f) # tl (C f)" using n by simp
  ultimately show ?thesis using step_unlink[OF g f] by blast
qed

lemma step_clear:
  assumes g: "good h L C" and f: "f \<in> L" and r: "clear h f = Some (Inr h')"
  shows "good h' L (C(f := []))"
proof -
  have l: "is_list h f (C f)" using g f by (rule goodD(1))
  from clear_is_list[OF l] r have h': "is_list h' f []" "\<forall>x \<in> set (C f). h' x = detached"
    "\<forall>c. c \<notin> set (f # C f) \<longrightarrow> h' c = h c"
    by auto
  show ?thesis
    by (rule good_update1[OF g f h'(1), where E = "{}"]) (use h'(2,3) in auto)
qed

lemma step_swap:
  assumes g: "good h L C" and f: "f \<in> L" "g \<in> L" and r: "swap h f g = Inr h'"
  shows "\<exists>C'. good h' L C'"
proof (cases "f = g")
  case True
  have "cycle h (f # C f)" using goodD(1)[OF g f(1)] by (simp add: is_list_def)
  then have "h' = h" using swap_self[of h f "C f"] r True by simp
  then show ?thesis using g by blast
next
  case False
  note dj = goodD(2)[OF g f False]
  from swap_is_list[OF goodD(1)[OF g f(1)] goodD(1)[OF g f(2)]] dj r
  have h': "is_list h' f (C g)" "is_list h' g (C f)"
    "\<forall>c. c \<notin> set (f # C f) \<union> set (g # C g) \<longrightarrow> h' c = h c"
    by auto
  have "good h' L (C(f := C g, g := C f))"
    by (rule good_update2[OF g f False h'(1,2)]) (use h'(3) dj in auto)
  then show ?thesis by blast
qed

lemma step_move_assign:
  assumes g: "good h L C" and f: "f \<in> L" "g \<in> L" and r: "move_assign h f g = Some (Inr h')"
  shows "\<exists>C'. good h' L C'"
proof (cases "f = g")
  case True
  have "cycle h (f # C f)" using goodD(1)[OF g f(1)] by (simp add: is_list_def)
  then have "clear h f = Some (Inr h')"
    using swap_self[of h f "C f"] r True by (simp add: move_assign_def)
  then show ?thesis using step_clear[OF g f(1)] by blast
next
  case False
  have dj: "set (g # C g) \<inter> set (f # C f) = {}" using goodD(2)[OF g f False] by blast
  from move_assign_is_list[OF goodD(1)[OF g f(2)] goodD(1)[OF g f(1)] dj] r
  have h': "is_list h' f (C g)" "is_list h' g []" "\<forall>x \<in> set (C f). h' x = detached"
    "\<forall>c. c \<notin> set (f # C f) \<union> set (g # C g) \<longrightarrow> h' c = h c"
    by auto
  have "good h' L (C(f := C g, g := []))"
    by (rule good_update2[OF g f False h'(1,2)]) (use h'(3,4) in auto)
  then show ?thesis by blast
qed

lemma step_move_ctor:
  assumes g: "good h L C" and f: "g \<in> L" "f \<notin> L" "h f = detached"
    and r: "move_ctor h f g = Some (Inr h')"
  shows "\<exists>C'. good h' (insert f L) C'"
proof -
  have "good (list_ctor h f) (insert f L) (C(f := []))" using g f(2,3) by (rule good_new)
  moreover have "move_assign (list_ctor h f) f g = Some (Inr h')"
    using r by (simp add: move_ctor_def move_assign_def)
  ultimately show ?thesis using step_move_assign[of "list_ctor h f" "insert f L" _ f g h'] f(1)
    by blast
qed

lemma splice_same_list:
  assumes l: "is_list h f (as @ r @ cs)" and n: "r \<noteq> []"
    and p: "p \<in> set (f # as @ cs)" "p \<noteq> hd (cs @ [f])"
  shows "\<exists>h' zs. splice_range h (Some p) (Some (hd r)) (Some (hd (cs @ [f]))) = Inr h'
    \<and> is_list h' f zs \<and> set zs = set (as @ r @ cs)
    \<and> (\<forall>c. c \<notin> set (f # as @ r @ cs) \<longrightarrow> h' c = h c)"
proof -
  consider "p = f" | "p \<in> set as" | "p \<in> set cs" "p \<noteq> f" using p(1) by auto
  then show ?thesis
  proof cases
    case 1
    then have cs: "cs \<noteq> []" using p(2) by auto
    have l': "is_list h f (as @ r @ cs @ [])" using l by simp
    from splice_same_list_after[OF l' n cs] obtain h' where
      "splice_range h (Some (hd ([] @ [f]))) (Some (hd r)) (Some (hd cs)) = Inr h'"
      "is_list h' f (as @ cs @ r @ [])"
      "\<forall>c. c \<notin> set (f # as @ r @ cs @ []) \<longrightarrow> h' c = h c"
      by blast
    then show ?thesis using 1 cs
      by (intro exI[of _ h'] exI[of _ "as @ cs @ r @ []"]) (auto simp: hd_append)
  next
    case 2
    then obtain x1 x2 where as: "as = x1 @ p # x2" by (auto simp: in_set_conv_decomp)
    have l': "is_list h f (x1 @ (p # x2) @ r @ cs)" using l as by simp
    from splice_same_list_before[OF l' _ n] obtain h' where
      "splice_range h (Some (hd (p # x2))) (Some (hd r)) (Some (hd (cs @ [f]))) = Inr h'"
      "is_list h' f (x1 @ r @ (p # x2) @ cs)"
      "\<forall>c. c \<notin> set (f # x1 @ (p # x2) @ r @ cs) \<longrightarrow> h' c = h c"
      by blast
    then show ?thesis using as
      by (intro exI[of _ h'] exI[of _ "x1 @ r @ (p # x2) @ cs"]) auto
  next
    case 3
    then obtain y1 y2 where cs: "cs = y1 @ p # y2" by (auto simp: in_set_conv_decomp)
    then have y1: "y1 \<noteq> []" using p(2) by (cases y1) auto
    have l': "is_list h f (as @ r @ y1 @ (p # y2))" using l cs by simp
    from splice_same_list_after[OF l' n y1] obtain h' where
      "splice_range h (Some (hd ((p # y2) @ [f]))) (Some (hd r)) (Some (hd y1)) = Inr h'"
      "is_list h' f (as @ y1 @ r @ (p # y2))"
      "\<forall>c. c \<notin> set (f # as @ r @ y1 @ (p # y2)) \<longrightarrow> h' c = h c"
      by blast
    then show ?thesis using cs y1
      by (intro exI[of _ h'] exI[of _ "as @ y1 @ r @ (p # y2)"]) (auto simp: hd_append)
  qed
qed

lemma step_splice:
  assumes g: "good h L C" and f: "f \<in> L" "g \<in> L"
    and pre: "splice_pre_apart h f g pos first last_it"
    and r: "splice_range h pos first last_it = Inr h'"
  shows "\<exists>C'. good h' L C'"
proof -
  from pre obtain rs where pos: "position h f pos" and vr: "valid_range h g first last_it rs"
    and nin: "pos \<notin> Some ` set rs"
    and ap: "\<not> (f = g \<and> pos = last_it \<and> first \<noteq> last_it)"
    unfolding splice_pre_apart_def splice_pre_def by blast
  have lg: "is_list h g (C g)" and lf: "is_list h f (C f)" using g f by (auto intro: goodD(1))
  from vr obtain as cs where v: "elems h g = Some (as @ rs @ cs)"
    "first = Some (hd (rs @ cs @ [g]))" "last_it = Some (hd (cs @ [g]))"
    unfolding valid_range_def by blast
  then have Cg: "C g = as @ rs @ cs" using is_list_elems[OF lg] by simp
  from good_position[OF g f(1) pos] obtain xs ys where
    Cf: "C f = xs @ ys" and p: "pos = Some (hd (ys @ [f]))"
    by blast
  show ?thesis
  proof (cases "rs = []")
    case True
    then have "h' = h" using r v(2,3) by (simp add: splice_range_def)
    then show ?thesis using g by blast
  next
    case False
    then have hr: "hd (rs @ cs @ [g]) = hd rs" by simp
    show ?thesis
    proof (cases "f = g")
      case True
      have d: "distinct (g # as @ rs @ cs)"
        using lg cycle_distinct[of h "g # C g"] unfolding Cg by (simp add: is_list_def)
      have "hd rs \<in> set rs" using False by simp
      moreover have "hd (cs @ [g]) \<in> set (cs @ [g])" by (rule hd_in_set) simp
      ultimately have "first \<noteq> last_it" using d v(2,3) hr by auto
      then have pl: "hd (ys @ [f]) \<noteq> hd (cs @ [g])" using ap True p v(3) by auto
      have "hd (ys @ [f]) \<in> set (ys @ [f])" by (rule hd_in_set) simp
      then have "hd (ys @ [f]) \<in> set (f # C f)" unfolding Cf by auto
      then have pm: "hd (ys @ [f]) \<in> set (g # as @ cs)" using nin p True Cg by auto
      have lg': "is_list h g (as @ rs @ cs)" using lg Cg by simp
      from splice_same_list[OF lg' False pm pl] r p v(2,3) hr obtain zs where z:
        "is_list h' g zs" "set zs = set (as @ rs @ cs)"
        "\<forall>c. c \<notin> set (g # as @ rs @ cs) \<longrightarrow> h' c = h c"
        by auto
      have "good h' L (C(g := zs))"
        by (rule good_update1[OF g f(2) z(1), where E = "{}"]) (use z(2,3) Cg in auto)
      then show ?thesis by blast
    next
      case False
      note dj = goodD(2)[OF g f False]
      have dj': "set (f # xs @ ys) \<inter> set (g # as @ rs @ cs) = {}" using dj Cf Cg by simp
      have lf': "is_list h f (xs @ ys)" and lg': "is_list h g (as @ rs @ cs)"
        using lf lg Cf Cg by simp_all
      from splice_is_list[OF lf' lg' dj'] r p v(2,3) have z:
        "is_list h' f (xs @ rs @ ys)" "is_list h' g (as @ cs)"
        "\<forall>c. c \<notin> set (f # xs @ ys) \<union> set (g # as @ rs @ cs) \<longrightarrow> h' c = h c"
        by auto
      have d: "distinct (g # as @ rs @ cs)"
        using lg cycle_distinct[of h "g # C g"] unfolding Cg by (simp add: is_list_def)
      have "good h' L (C(f := xs @ rs @ ys, g := as @ cs))"
      proof (rule good_update2[OF g f False z(1,2)])
        show "set (xs @ rs @ ys) \<inter> set (as @ cs) = {}" using dj' d by auto
      qed (use z(3) Cf Cg in auto)
      then show ?thesis by blast
    qed
  qed
qed

lemma reach_good: "reach splice_pre_apart h L \<Longrightarrow> \<exists>C. good h L C"
proof (induction rule: reach.induct)
  case start
  then show ?case using good_start by blast
next
  case (ctor h L f)
  then show ?case using good_new by blast
next
  case (push_back h L f e h')
  then show ?case using step_push_back by blast
next
  case (push_front h L f e h')
  then show ?case using step_push_front by blast
next
  case (pop_back h L f h')
  then show ?case using step_pop_back by blast
next
  case (pop_front h L f h')
  then show ?case using step_pop_front by blast
next
  case (insert h L f pos e h' it)
  then show ?case using step_insert by blast
next
  case (erase h L f pos h' it)
  then show ?case using step_erase by blast
next
  case (splice h L f g pos first last_it h')
  then show ?case using step_splice by blast
next
  case (swap h L f g h')
  then show ?case using step_swap by blast
next
  case (clear h L f h')
  then show ?case using step_clear by blast
next
  case (move_ctor h L g f h')
  then show ?case using step_move_ctor by blast
next
  case (move_assign h L f g h')
  then show ?case using step_move_assign by blast
qed

text \<open>The run \<open>list L; L.push_back(1); L.push_back(2)\<close>, whatever the precondition of \<open>splice\<close>.\<close>

lemma reach_two_pushes: "\<exists>h. reach pre h {0} \<and> is_list h 0 [1, 2]"
proof -
  let ?h0 = "list_ctor (\<lambda>_. detached) 0"
  have r0: "reach pre ?h0 {0}"
    using reach.ctor[OF reach.start, of 0 pre] by simp
  obtain h1 where h1: "push_back ?h0 0 1 = Inr h1" "is_list h1 0 [1]"
    and f1: "\<forall>c. c \<notin> {1, 0, last [0]} \<longrightarrow> h1 c = ?h0 c"
    using push_back_is_list[of ?h0 0 "[]" 1] list_ctor_is_list[of _ 0] by auto
  have r1: "reach pre h1 {0}"
    using reach.push_back[OF r0 _ _ h1(1)] by (simp add: list_ctor_other)
  have d2: "h1 2 = detached" using f1 by (simp add: list_ctor_other)
  obtain h2 where h2: "push_back h1 0 2 = Inr h2" "is_list h2 0 [1, 2]"
    using push_back_is_list[OF h1(2), of 2] by auto
  have "reach pre h2 {0}"
    using reach.push_back[OF r1 _ d2 h2(1)] by simp
  then show ?thesis using h2(2) by blast
qed

text \<open>
  Hence the invariant of the data model holds after every sequence of operations called
  within their preconditions, as long as no \<open>splice\<close> moves a non-empty range of a list
  to the position right after that range.
\<close>

lemma reach_invariant: "reach splice_pre_apart h L \<Longrightarrow> invariant h L"
  using reach_good good_invariant by blast

lemma reach_invariant_example:
  "\<exists>h. reach splice_pre_apart h {0} \<and> is_list h 0 [1, 2] \<and> invariant h {0}"
  using reach_two_pushes[of splice_pre_apart] reach_invariant by blast

text \<open>
  Claim C1 at the run \<open>list L; L.push_back(1); L.push_back(2);
  L.splice(it2, L, L.begin(), it2)\<close>. Every call is within its precondition (the
  position \<open>2\<close> is not inside the range \<open>[1]\<close>), yet in the heap it leaves node \<open>1\<close> is
  linked with \<open>prev = 1\<close> and \<open>next = 2\<close>, so \<open>n.prev.next = n\<close> fails at \<open>n = 1\<close>, and
  the sentinel \<open>0\<close> heads no well-formed list: the chain through \<open>prev\<close> never returns
  to it.
\<close>

theorem invariant_broken_by_splice_ending_at_pos:
  "\<exists>h. reach splice_pre h {0}
     \<and> nxt (h 1) = Some 2 \<and> prev (h 1) = Some 1
     \<and> \<not> mutual_links h \<and> \<not> list_inv h 0"
proof -
  obtain h2 where r2: "reach splice_pre h2 {0}" and h2: "is_list h2 0 [1, 2]"
    using reach_two_pushes[of splice_pre] by blast
  let ?h3 = "set_prev h2 1 (Some 1)"
  have l: "is_list h2 0 ([] @ [1] @ [2])" using h2 by simp
  note bug = splice_same_list_at_last[OF l]
  have e2: "elems h2 0 = Some [1, 2]" using h2 by (rule is_list_elems)
  have vr: "valid_range h2 0 (Some 1) (Some 2) [1]"
    unfolding valid_range_def e2 by (rule exI[of _ "[]"], rule exI[of _ "[2]"]) simp
  have "position h2 0 (Some 2)" by (simp add: position_def e2)
  moreover have "\<exists>r. valid_range h2 0 (Some 1) (Some 2) r \<and> Some 2 \<notin> Some ` set r"
    using vr by (intro exI[of _ "[1]"]) simp
  ultimately have pre: "splice_pre h2 0 0 (Some 2) (Some 1) (Some 2)"
    by (simp add: splice_pre_def)
  have s3: "splice_range h2 (Some 2) (Some 1) (Some 2) = Inr ?h3" using bug(1) by simp
  have r3: "reach splice_pre ?h3 {0}"
    using reach.splice[OF r2 _ _ pre s3] by simp
  have n1: "nxt (h2 1) = Some 2"
    using cycle_next[of h2 1 "[2, 0]"] is_list_rotate[of h2 0 "[]" "[1, 2]"] h2 by simp
  have nl: "\<not> list_inv ?h3 0" using bug(3) by (auto simp: list_inv_def)
  have f3: "nxt (?h3 1) = Some 2" "prev (?h3 1) = Some 1"
    using n1 by (simp_all add: set_prev_def)
  have nm: "\<not> mutual_links ?h3"
  proof
    assume "mutual_links ?h3"
    then have "?h3 1 = detached
       \<or> (\<exists>m p. nxt (?h3 1) = Some m \<and> prev (?h3 m) = Some 1
                \<and> prev (?h3 1) = Some p \<and> nxt (?h3 p) = Some 1)"
      unfolding mutual_links_def by (rule allE)
    then show False unfolding f3 using f3 by (auto simp: detached_def)
  qed
  show ?thesis
    using r3 f3 nl nm by (intro exI[of _ ?h3]) simp
qed

end
